theory Spec2Isabelle
  imports Complex_Main
begin

section \<open>Nuclear decay event generator (Physics/NuclEvtGen.cc)\<close>

text \<open>
  A shallow embedding of the decay-chain generator of \<^verbatim>\<open>Physics/NuclEvtGen.cc\<close>.
  Values of the C++ type \<^verbatim>\<open>double\<close> are modelled as real numbers: every
  arithmetic operation is exact, and no NaN or infinity exists. Results below are
  results about this exact arithmetic; rounding of IEEE doubles is outside the model.
  Every quotient the theorems speak about has a nonzero denominator, so the HOL
  convention for division by zero is never relied upon.
\<close>

subsection \<open>Errors\<close>

text \<open>
  \<^verbatim>\<open>smassert\<close> and \<^verbatim>\<open>SMExcept\<close> come from \<^verbatim>\<open>SMExcept.hh\<close>. A failed
  \<^verbatim>\<open>smassert(c)\<close> raises; the macro sees only the text of the condition \<^verbatim>\<open>c\<close>,
  which is what \<open>AssertFailed\<close> carries. An \<^verbatim>\<open>SMExcept\<close> built by hand carries its
  name and the key/value pair inserted into it.
\<close>

datatype SMExcept =
    AssertFailed string
  | UnknownLevel string
  | BadAugerZ nat
  | BindingTableMiss nat
  | Undefined string

text \<open>
  \<open>Undefined\<close> is not an exception of the program. It marks the places where the C++
  behaviour is undefined (an index outside a vector, a pointer never set) or a double
  leaves the real numbers (a division by zero): the model stops there, and no theorem
  below takes such a result for a proper one.
\<close>

definition bindE :: "SMExcept + 'a \<Rightarrow> ('a \<Rightarrow> SMExcept + 'b) \<Rightarrow> SMExcept + 'b" where
  "bindE m f = (case m of Inl e \<Rightarrow> Inl e | Inr x \<Rightarrow> f x)"

definition vec_at :: "'a list \<Rightarrow> nat \<Rightarrow> SMExcept + 'a" where
  "vec_at xs i = (if i < length xs then Inr (xs ! i) else Inl (Undefined ''index out of range''))"

subsection \<open>PSelector\<close>

record PSelector =
  cumprob :: "real list"

text \<open>
  Modelled from the spec: the constructor and \<^verbatim>\<open>addProb\<close>, \<^verbatim>\<open>getCumProb\<close>,
  \<^verbatim>\<open>getN\<close> live in \<^verbatim>\<open>NuclEvtGen.hh\<close>. The spec: a selector is ``an ordered
  sequence of cumulative weights (monotonically non-decreasing, starting at 0)'', ``the
  last entry is the total weight'', and \<^verbatim>\<open>addProb(w)\<close> ``appends a new bin of weight
  \<open>w\<close>, extending the cumulative total''.
\<close>

definition PSelector0 :: PSelector where
  "PSelector0 = \<lparr> cumprob = [0] \<rparr>"

definition addProb :: "real \<Rightarrow> PSelector \<Rightarrow> PSelector" where
  "addProb p P = P \<lparr> cumprob := cumprob P @ [p + last (cumprob P)] \<rparr>"

definition getCumProb :: "PSelector \<Rightarrow> real" where
  "getCumProb P = last (cumprob P)"

definition getN :: "PSelector \<Rightarrow> nat" where
  "getN P = length (cumprob P) - 1"

text \<open>
  \<^verbatim>\<open>std::upper_bound(begin, end, x)\<close>: the position of the first element greater than
  \<open>x\<close>, or the length when there is none (its contract on a range partitioned with
  respect to \<open>x\<close>, which every sorted range is).
\<close>

fun upper_bound :: "real list \<Rightarrow> real \<Rightarrow> nat" where
  "upper_bound [] x = 0"
| "upper_bound (c # cs) x = (if x < c then 0 else Suc (upper_bound cs x))"

text \<open>
  Lines 16--20 of \<^verbatim>\<open>PSelector::select\<close>, on the already scaled value \<open>*x\<close>.
  \<open>selected\<close> is an \<^verbatim>\<open>unsigned int\<close>: the iterator difference minus one wraps
  modulo \<open>2^32\<close>. The result is the bin and the value written back to \<open>*x\<close>.
\<close>

definition select_scaled :: "PSelector \<Rightarrow> real \<Rightarrow> SMExcept + (nat \<times> real)" where
  "select_scaled P x =
     (let itsel = upper_bound (cumprob P) x;
          selected = nat ((int itsel - 1) mod 2 ^ 32)
      in if \<not> selected < length (cumprob P) - 1
         then Inl (AssertFailed ''selected<cumprob.size()-1'')
         else Inr (selected,
                   (x - cumprob P ! selected) /
                   (cumprob P ! (selected + 1) - cumprob P ! selected)))"

text \<open>
  \<^verbatim>\<open>PSelector::select(double* x)\<close> with \<open>x\<close> supplied (non-null): line 15, then
  lines 16--20.
\<close>

definition select :: "PSelector \<Rightarrow> real \<Rightarrow> SMExcept + (nat \<times> real)" where
  "select P x =
     (if \<not> (0 \<le> x \<and> x \<le> 1) then Inl (AssertFailed ''0. <= *x && *x <= 1.'')
      else select_scaled P (x * last (cumprob P)))"

text \<open>
  \<^verbatim>\<open>PSelector::select(NULL)\<close>: line 14 draws \<^verbatim>\<open>gRandom->Uniform(0,cumprob.back())\<close>,
  that is \<open>u\<close> times the total for the next value \<open>u\<close> of the ambient source; the
  value written to the static \<^verbatim>\<open>rnd_tmp\<close> is dropped.
\<close>

definition select_null :: "PSelector \<Rightarrow> real \<Rightarrow> SMExcept + nat" where
  "select_null P u =
     (case select_scaled P (0 + (last (cumprob P) - 0) * u) of
        Inl e \<Rightarrow> Inl e
      | Inr (i, r) \<Rightarrow> Inr i)"

definition scale_PSelector :: "real \<Rightarrow> PSelector \<Rightarrow> PSelector" where
  "scale_PSelector s P = P \<lparr> cumprob := map (\<lambda>p. p * s) (cumprob P) \<rparr>"

text \<open>
  \<^verbatim>\<open>PSelector::getProb\<close>. The quotient is \<open>None\<close> when the total is zero (the IEEE
  result is then NaN or an infinity, not a real number).
\<close>

definition getProb :: "PSelector \<Rightarrow> nat \<Rightarrow> SMExcept + real option" where
  "getProb P n =
     (if \<not> n < length (cumprob P) - 1 then Inl (AssertFailed ''n<cumprob.size()-1'')
      else Inr (if last (cumprob P) = 0 then None
                else Some ((cumprob P ! (n + 1) - cumprob P ! n) / last (cumprob P))))"

text \<open>
  The class invariant of a selector: the cumulative weights start at 0 and never
  decrease. The constructor establishes it; \<open>addProb\<close> with a weight \<open>\<ge> 0\<close> and
  \<open>scale\<close> with a factor \<open>\<ge> 0\<close> keep it.
\<close>

definition PSelector_inv :: "PSelector \<Rightarrow> bool" where
  "PSelector_inv P \<longleftrightarrow> cumprob P \<noteq> [] \<and> hd (cumprob P) = 0 \<and> sorted (cumprob P)"

subsection \<open>Random numbers\<close>

text \<open>
  The ambient source \<^verbatim>\<open>gRandom\<close> is a stream of values with a read position; each
  \<^verbatim>\<open>gRandom->Uniform(0,1)\<close> takes the next value. A caller's buffer \<^verbatim>\<open>double* rnd\<close>
  is the memory it points into together with the pointer: \<^verbatim>\<open>rnd[k]\<close> is \<open>buf (pos + k)\<close>,
  \<^verbatim>\<open>rnd += k\<close> moves \<open>pos\<close>. A null \<^verbatim>\<open>rnd\<close> is \<open>None\<close>.
\<close>

type_synonym TRandom = "(nat \<Rightarrow> real) \<times> nat"

type_synonym rndbuf = "(nat \<Rightarrow> real) \<times> nat"

definition Uniform01 :: "TRandom \<Rightarrow> real \<times> TRandom" where
  "Uniform01 g = (fst g (snd g), (fst g, Suc (snd g)))"

text \<open>\<^verbatim>\<open>select(rnd)\<close> as the generator calls it, on either kind of \<^verbatim>\<open>rnd\<close>.\<close>

definition select_rnd ::
  "PSelector \<Rightarrow> rndbuf option \<Rightarrow> TRandom \<Rightarrow> SMExcept + (nat \<times> rndbuf option \<times> TRandom)" where
  "select_rnd P rnd g =
     (case rnd of
        None \<Rightarrow>
          (case select_null P (fst (Uniform01 g)) of
             Inl e \<Rightarrow> Inl e
           | Inr i \<Rightarrow> Inr (i, None, snd (Uniform01 g)))
      | Some b \<Rightarrow>
          (case select P (fst b (snd b)) of
             Inl e \<Rightarrow> Inl e
           | Inr ir \<Rightarrow> Inr (fst ir, Some ((fst b) (snd b := snd ir), snd b), g)))"

subsection \<open>Events\<close>

datatype DecayType = D_GAMMA | D_ELECTRON | D_POSITRON | D_NEUTRINO | D_NONEVENT

text \<open>
  The fields of \<^verbatim>\<open>NucDecayEvent\<close> the generator writes: the particle type, the
  kinetic energy and the momentum direction.
\<close>

record NucDecayEvent =
  evt_E :: real
  evt_d :: DecayType
  evt_p :: "real \<times> real \<times> real"

definition randomDirection ::
  "rndbuf option \<Rightarrow> TRandom \<Rightarrow> (real \<times> real \<times> real) \<times> TRandom" where
  "randomDirection rnd g =
     (let phi = 2 * pi * (case rnd of Some b \<Rightarrow> fst b (snd b + 1) | None \<Rightarrow> fst (Uniform01 g));
          g1 = (case rnd of Some b \<Rightarrow> g | None \<Rightarrow> snd (Uniform01 g));
          costheta = 2 * (case rnd of Some b \<Rightarrow> fst b (snd b) | None \<Rightarrow> fst (Uniform01 g1)) - 1;
          g2 = (case rnd of Some b \<Rightarrow> g1 | None \<Rightarrow> snd (Uniform01 g1));
          sintheta = sqrt (1 - costheta * costheta)
      in ((cos phi * sintheta, sin phi * sintheta, costheta), g2))"

text \<open>
  Modelled from the spec: \<^verbatim>\<open>NucDecayEvent::randp\<close> is declared in \<^verbatim>\<open>NuclEvtGen.hh\<close>;
  the spec gives every emitted event ``a randomly sampled isotropic direction'', which
  is what \<^verbatim>\<open>randomDirection\<close> computes.
\<close>

definition randp :: "NucDecayEvent \<Rightarrow> rndbuf option \<Rightarrow> TRandom \<Rightarrow> NucDecayEvent \<times> TRandom" where
  "randp evt rnd g = (evt \<lparr> evt_p := fst (randomDirection rnd g) \<rparr>, snd (randomDirection rnd g))"

subsection \<open>Levels, atoms and transitions\<close>

record NucLevel =
  lev_name :: string
  lev_A :: nat
  lev_Z :: nat
  lev_n :: nat
  lev_E :: real
  lev_hl :: real
  lev_jpi :: string
  fluxIn :: real
  fluxOut :: real

text \<open>
  Modelled from the spec: \<^verbatim>\<open>NucLevel::scale\<close> is declared in \<^verbatim>\<open>NuclEvtGen.hh\<close>; under
  normalisation ``all intensities and level fluxes are rescaled''.
\<close>

definition scale_NucLevel :: "real \<Rightarrow> NucLevel \<Rightarrow> NucLevel" where
  "scale_NucLevel s l = l \<lparr> fluxIn := fluxIn l * s, fluxOut := fluxOut l * s \<rparr>"

text \<open>The binding-energy table of one element, an external collaborator.\<close>

record BindingEnergyTable =
  bet_Z :: nat
  getSubshellBinding :: "nat \<Rightarrow> nat \<Rightarrow> real"

record DecayAtom =
  BET :: BindingEnergyTable
  Eauger :: real
  Iauger :: real
  Ikxr :: real
  ICEK :: real
  IMissing :: real
  pAuger :: real

definition DecayAtom_new :: "BindingEnergyTable \<Rightarrow> DecayAtom" where
  "DecayAtom_new B =
     \<lparr> BET = B,
       Eauger = (if bet_Z B > 2
                 then getSubshellBinding B 0 0 - getSubshellBinding B 1 0 - getSubshellBinding B 1 1
                 else 0),
       Iauger = 0, Ikxr = 0, ICEK = 0, IMissing = 0, pAuger = 0 \<rparr>"

text \<open>
  The three kinds of transition with the members of each. \<open>shell\<close>, \<open>subshell\<close> and
  \<open>isKCapt\<close> are written by \<^verbatim>\<open>run\<close> before anything reads them. The beta spectrum is
  external numerics: \<open>betaQuantiles\<close> is \<^verbatim>\<open>betaQuantiles->eval\<close>, and \<open>betaGetRandom\<close>
  maps the one ambient value \<^verbatim>\<open>betaTF1.GetRandom()\<close> draws to its result.
\<close>

datatype TransKind =
    ConversionGamma (Egamma: real) (Igamma: real) (shells: PSelector)
      (subshells: "PSelector list") (shellUncert: "real list") (shell: int) (subshell: int)
  | BetaDecayTrans (positron: bool) (betaQuantiles: "real \<Rightarrow> real")
      (betaGetRandom: "real \<Rightarrow> real")
  | ECapture (isKCapt: bool)

text \<open>
  \<^verbatim>\<open>TransitionBase\<close>. The references \<^verbatim>\<open>from\<close> and \<^verbatim>\<open>to\<close> are positions in the
  system's vector of levels; the pointer \<^verbatim>\<open>toAtom\<close> is the key of the atom in the
  system's atom map, \<open>None\<close> until \<^verbatim>\<open>addTransition\<close> sets it. \<open>NDF\<close> is what the
  virtual \<^verbatim>\<open>getNDF()\<close> of the transition returns: the header that fixes it per kind is
  not part of the sources, so it is a parameter of each transition.
\<close>

record TransitionBase =
  tr_from :: nat
  tr_to :: nat
  Itotal :: real
  toAtom :: "nat option"
  NDF :: nat
  kind :: TransKind

text \<open>
  Modelled from the spec: \<^verbatim>\<open>TransitionBase::scale\<close> is declared in \<^verbatim>\<open>NuclEvtGen.hh\<close>;
  scaling multiplies the intensity (``scaling a system by \<open>1/s\<close> then by \<open>s\<close>
  reproduces the original per-transition \<open>Itotal\<close> values'').
  \<^verbatim>\<open>ConversionGamma::scale\<close> is in the sources.
\<close>

definition scale_TransitionBase :: "real \<Rightarrow> TransitionBase \<Rightarrow> TransitionBase" where
  "scale_TransitionBase s T = T \<lparr> Itotal := Itotal T * s \<rparr>"

definition scale_Transition :: "real \<Rightarrow> TransitionBase \<Rightarrow> TransitionBase" where
  "scale_Transition s T =
     (case kind T of
        ConversionGamma eg ig sh ssh un s1 s2 \<Rightarrow>
          (scale_TransitionBase s T)
            \<lparr> kind := ConversionGamma eg (ig / s) (scale_PSelector s sh) ssh un s1 s2 \<rparr>
      | _ \<Rightarrow> scale_TransitionBase s T)"

text \<open>
  Modelled from the spec: \<^verbatim>\<open>nVacant\<close> is declared in \<^verbatim>\<open>NuclEvtGen.hh\<close>. A gamma
  transition registers one K-shell vacancy ``if the chosen shell is the K shell''; an
  electron capture has one when its draw ``left a K-shell vacancy''; a beta decay none.
\<close>

definition nVacant :: "TransitionBase \<Rightarrow> nat \<Rightarrow> nat" where
  "nVacant T s =
     (case kind T of
        ConversionGamma eg ig sh ssh un s1 s2 \<Rightarrow> (if int s = s1 then 1 else 0)
      | BetaDecayTrans p q r \<Rightarrow> 0
      | ECapture k \<Rightarrow> (if s = 0 \<and> k then 1 else 0))"

subsection \<open>The decay system\<close>

text \<open>
  \<^verbatim>\<open>NucDecaySystem\<close>. A \<^verbatim>\<open>TransitionBase*\<close> is the position of the transition in
  \<open>transitions\<close>, where \<^verbatim>\<open>addTransition\<close> stores every transition it is given.
\<close>

record NucDecaySystem =
  levels :: "NucLevel list"
  levelIndex :: "string \<Rightarrow> nat option"
  atoms :: "nat \<Rightarrow> DecayAtom option"
  transitions :: "TransitionBase list"
  transIn :: "nat list list"
  transOut :: "nat list list"
  levelDecays :: "PSelector list"
  lStart :: PSelector
  tcut :: real

text \<open>The binding-energy library \<^verbatim>\<open>BEL\<close>: \<open>None\<close> is a failed lookup.\<close>

type_synonym BindingEnergyLibrary = "nat \<Rightarrow> BindingEnergyTable option"

definition getAtom ::
  "BindingEnergyLibrary \<Rightarrow> nat \<Rightarrow> NucDecaySystem \<Rightarrow> SMExcept + NucDecaySystem" where
  "getAtom BEL z S =
     (case atoms S z of
        Some a \<Rightarrow> Inr S
      | None \<Rightarrow>
          (case BEL z of
             None \<Rightarrow> Inl (BindingTableMiss z)
           | Some B \<Rightarrow> Inr (S \<lparr> atoms := (atoms S)(z \<mapsto> DecayAtom_new B) \<rparr>)))"

text \<open>
  \<^verbatim>\<open>addTransition\<close>, lines 375--383. \<open>T\<close> is the new object; its address is the next
  free position of \<open>transitions\<close>.
\<close>

definition addTransition ::
  "BindingEnergyLibrary \<Rightarrow> TransitionBase \<Rightarrow> NucDecaySystem \<Rightarrow> SMExcept + NucDecaySystem" where
  "addTransition BEL T S =
     bindE (vec_at (levels S) (tr_to T)) (\<lambda>lto.
     bindE (vec_at (levels S) (tr_from T)) (\<lambda>lfrom.
     bindE (getAtom BEL (lev_Z lto) S) (\<lambda>S1.
     bindE (vec_at (transIn S1) (lev_n lto)) (\<lambda>tin.
     bindE (vec_at (transOut S1) (lev_n lfrom)) (\<lambda>tout.
     bindE (vec_at (levelDecays S1) (lev_n lfrom)) (\<lambda>ld.
       let p = length (transitions S1);
           T1 = T \<lparr> toAtom := Some (lev_Z lto) \<rparr>;
           L1 = (levels S1) [tr_from T := (levels S1 ! tr_from T)
                   \<lparr> fluxOut := fluxOut (levels S1 ! tr_from T) + Itotal T1 \<rparr>];
           L2 = L1 [tr_to T := (L1 ! tr_to T) \<lparr> fluxIn := fluxIn (L1 ! tr_to T) + Itotal T1 \<rparr>]
       in Inr (S1 \<lparr> transIn := (transIn S1) [lev_n lto := tin @ [p]],
                    transOut := (transOut S1) [lev_n lfrom := tout @ [p]],
                    levelDecays := (levelDecays S1) [lev_n lfrom := addProb (Itotal T1) ld],
                    levels := L2,
                    transitions := transitions S1 @ [T1] \<rparr>)))))))"

text \<open>\<^verbatim>\<open>setCutoff\<close>, lines 385--399: the body of the loop over \<open>n\<close>, then the whole.\<close>

definition setCutoff_level :: "nat \<Rightarrow> NucDecaySystem \<Rightarrow> NucDecaySystem" where
  "setCutoff_level n S =
     (let ld = fold (\<lambda>t P. addProb (Itotal (transitions S ! t)) P) (transOut S ! n) PSelector0;
          pStart0 = (if n + 1 = length (levels S) then 1 else 0 :: real);
          pStart = (if pStart0 = 0 \<and> lev_hl (levels S ! n) > tcut S \<and> transOut S ! n \<noteq> []
                    then fold (\<lambda>t p. p + Itotal (transitions S ! t)) (transIn S ! n) pStart0
                    else pStart0)
      in S \<lparr> levelDecays := (levelDecays S) [n := ld],
             lStart := addProb pStart (lStart S) \<rparr>)"

definition setCutoff :: "real \<Rightarrow> NucDecaySystem \<Rightarrow> NucDecaySystem" where
  "setCutoff t S =
     fold setCutoff_level [0..<length (levels S)] (S \<lparr> tcut := t, lStart := PSelector0 \<rparr>)"

text \<open>\<^verbatim>\<open>NucDecaySystem::scale\<close>, lines 478--486.\<close>

definition scale :: "real \<Rightarrow> NucDecaySystem \<Rightarrow> NucDecaySystem" where
  "scale s S =
     S \<lparr> lStart := scale_PSelector s (lStart S),
         transitions := map (scale_Transition s) (transitions S),
         levels := map (scale_NucLevel s) (levels S),
         levelDecays := map (scale_PSelector s) (take (length (levels S)) (levelDecays S))
                        @ drop (length (levels S)) (levelDecays S) \<rparr>"

subsection \<open>Chain generation\<close>

text \<open>
  The state a call of \<^verbatim>\<open>genDecayChain\<close> works on: the system (a transition's
  \<^verbatim>\<open>run\<close> writes members of the transition, \<^verbatim>\<open>getAtom\<close> may add an atom), the output
  vector \<^verbatim>\<open>v\<close>, the pointer \<^verbatim>\<open>rnd\<close> with the caller's buffer, and the ambient source.
\<close>

record GenState =
  sys :: NucDecaySystem
  out_v :: "NucDecayEvent list"
  rnd_ptr :: "rndbuf option"
  gRandom :: TRandom

text \<open>\<^verbatim>\<open>DecayAtom::genAuger\<close>, lines 101--108.\<close>

definition genAuger :: "DecayAtom \<Rightarrow> GenState \<Rightarrow> GenState" where
  "genAuger a st =
     (let u = fst (Uniform01 (gRandom st)); g1 = snd (Uniform01 (gRandom st))
      in if u > pAuger a then st \<lparr> gRandom := g1 \<rparr>
         else let ep = randp \<lparr> evt_E = Eauger a, evt_d = D_ELECTRON, evt_p = (0, 0, 0) \<rparr> None g1
              in st \<lparr> out_v := out_v st @ [fst ep], gRandom := snd ep \<rparr>)"

text \<open>The atom a transition's \<^verbatim>\<open>toAtom\<close> points to.\<close>

definition deref_toAtom :: "NucDecaySystem \<Rightarrow> TransitionBase \<Rightarrow> SMExcept + DecayAtom" where
  "deref_toAtom S T =
     (case toAtom T of
        None \<Rightarrow> Inl (Undefined ''toAtom'')
      | Some z \<Rightarrow> (case atoms S z of None \<Rightarrow> Inl (Undefined ''toAtom'') | Some a \<Rightarrow> Inr a))"

text \<open>
  \<^verbatim>\<open>T->run(v, rnd)\<close> for the transition at position \<open>ti\<close>:
  \<^verbatim>\<open>ConversionGamma::run\<close> (lines 147--163), \<^verbatim>\<open>BetaDecayTrans::run\<close> (249--256) and
  \<^verbatim>\<open>ECapture::run\<close> (262--264).
\<close>

definition run_emit ::
  "nat \<Rightarrow> TransitionBase \<Rightarrow> int \<Rightarrow> int \<Rightarrow> rndbuf option \<Rightarrow> TRandom \<Rightarrow> GenState
     \<Rightarrow> SMExcept + GenState" where
  "run_emit ti T sh ssh r g st =
     (case kind T of
        ConversionGamma eg ig shs sshs un s1 s2 \<Rightarrow>
          bindE (if sh < 0 then Inr \<lparr> evt_E = eg, evt_d = D_GAMMA, evt_p = (0, 0, 0) \<rparr>
                 else bindE (deref_toAtom (sys st) T) (\<lambda>a.
                        Inr \<lparr> evt_E = eg - getSubshellBinding (BET a) (nat sh) (nat ssh),
                              evt_d = D_ELECTRON, evt_p = (0, 0, 0) \<rparr>)) (\<lambda>evt.
            let ep = randp evt r g;
                T1 = T \<lparr> kind := ConversionGamma eg ig shs sshs un sh ssh \<rparr>
            in Inr (st \<lparr> sys := (sys st) \<lparr> transitions := (transitions (sys st)) [ti := T1] \<rparr>,
                         out_v := out_v st @ [fst ep], rnd_ptr := r, gRandom := snd ep \<rparr>))
      | _ \<Rightarrow> Inl (Undefined ''run_emit''))"

definition run :: "nat \<Rightarrow> GenState \<Rightarrow> SMExcept + GenState" where
  "run ti st =
     bindE (vec_at (transitions (sys st)) ti) (\<lambda>T.
       case kind T of
         ConversionGamma eg ig shs sshs un s1 s2 \<Rightarrow>
           bindE (select_rnd shs (rnd_ptr st) (gRandom st)) (\<lambda>sel.
             if int (fst sel) < int (length sshs)
             then bindE (select_rnd (sshs ! fst sel) (fst (snd sel)) (snd (snd sel))) (\<lambda>sel2.
                    run_emit ti T (int (fst sel)) (int (fst sel2))
                      (fst (snd sel2)) (snd (snd sel2)) st)
             else run_emit ti T (- 1) (- 1) (fst (snd sel)) (snd (snd sel)) st)
       | BetaDecayTrans pstrn q gr \<Rightarrow>
           (let ep = randp \<lparr> evt_E = 0, evt_d = (if pstrn then D_POSITRON else D_ELECTRON),
                            evt_p = (0, 0, 0) \<rparr> (rnd_ptr st) (gRandom st);
                en = (case rnd_ptr st of
                        Some b \<Rightarrow> q (fst b (snd b + 2))
                      | None \<Rightarrow> gr (fst (Uniform01 (snd ep))));
                g2 = (case rnd_ptr st of
                        Some b \<Rightarrow> snd ep
                      | None \<Rightarrow> snd (Uniform01 (snd ep)))
            in Inr (st \<lparr> out_v := out_v st @ [(fst ep) \<lparr> evt_E := en \<rparr>], gRandom := g2 \<rparr>))
       | ECapture k \<Rightarrow>
           bindE (deref_toAtom (sys st) T) (\<lambda>a.
             let u = fst (Uniform01 (gRandom st));
                 T1 = T \<lparr> kind := ECapture (u < IMissing a) \<rparr>
             in Inr (st \<lparr> sys := (sys st) \<lparr> transitions := (transitions (sys st)) [ti := T1] \<rparr>,
                          gRandom := snd (Uniform01 (gRandom st)) \<rparr>)))"

text \<open>The loop \<^verbatim>\<open>while(nAugerK--) getAtom(T->to.Z)->genAuger(v)\<close>.\<close>

fun genAuger_loop ::
  "nat \<Rightarrow> BindingEnergyLibrary \<Rightarrow> nat \<Rightarrow> GenState \<Rightarrow> SMExcept + GenState" where
  "genAuger_loop 0 BEL z st = Inr st"
| "genAuger_loop (Suc k) BEL z st =
     bindE (getAtom BEL z (sys st)) (\<lambda>S1.
     bindE (case atoms S1 z of None \<Rightarrow> Inl (Undefined ''getAtom'') | Some a \<Rightarrow> Inr a) (\<lambda>a.
       genAuger_loop k BEL z (genAuger a (st \<lparr> sys := S1 \<rparr>))))"

text \<open>
  Lines 449--454 of \<^verbatim>\<open>genDecayChain\<close> at level \<open>n\<close>: choose and run a transition,
  move \<^verbatim>\<open>rnd\<close>, fill the K vacancies. The result is \<^verbatim>\<open>T->to.n\<close> and the new state.
\<close>

definition fire ::
  "BindingEnergyLibrary \<Rightarrow> nat \<Rightarrow> GenState \<Rightarrow> SMExcept + (nat \<times> GenState)" where
  "fire BEL n st =
     bindE (vec_at (levelDecays (sys st)) n) (\<lambda>ld.
     bindE (select_rnd ld (rnd_ptr st) (gRandom st)) (\<lambda>sel.
     bindE (vec_at (transOut (sys st)) n) (\<lambda>tout.
     bindE (vec_at tout (fst sel)) (\<lambda>ti.
     bindE (run ti (st \<lparr> rnd_ptr := fst (snd sel), gRandom := snd (snd sel) \<rparr>)) (\<lambda>st1.
     bindE (vec_at (transitions (sys st1)) ti) (\<lambda>T.
     bindE (vec_at (levels (sys st1)) (tr_to T)) (\<lambda>lto.
     bindE (genAuger_loop (nVacant T 0) BEL (lev_Z lto)
              (st1 \<lparr> rnd_ptr := map_option (\<lambda>b. (fst b, snd b + NDF T)) (rnd_ptr st1) \<rparr>))
       (\<lambda>st2. Inr (lev_n lto, st2)))))))))"

text \<open>
  \<^verbatim>\<open>genDecayChain(v, rnd, n)\<close>, lines 443--457. The first argument bounds the number
  of calls: each call, the first and every recursive one, uses one unit, and \<open>None\<close>
  says that the units ran out before the chain stopped.
\<close>

fun genDecayChain ::
  "nat \<Rightarrow> BindingEnergyLibrary \<Rightarrow> nat \<Rightarrow> GenState \<Rightarrow> (SMExcept + GenState) option" where
  "genDecayChain 0 BEL n st = None"
| "genDecayChain (Suc k) BEL n st =
     (let init = (n \<ge> length (levels (sys st)))
      in case (if init
               then bindE (select_rnd (lStart (sys st)) (rnd_ptr st) (gRandom st)) (\<lambda>sel.
                      Inr (fst sel, st \<lparr> rnd_ptr := fst (snd sel), gRandom := snd (snd sel) \<rparr>))
               else Inr (n, st)) of
           Inl e \<Rightarrow> Some (Inl e)
         | Inr nst \<Rightarrow>
             (case vec_at (levels (sys (snd nst))) (fst nst) of
                Inl e \<Rightarrow> Some (Inl e)
              | Inr l \<Rightarrow>
                  if fluxOut l = 0 \<or> (\<not> init \<and> lev_hl l > tcut (sys (snd nst)))
                  then Some (Inr (snd nst))
                  else (case fire BEL (fst nst) (snd nst) of
                          Inl e \<Rightarrow> Some (Inl e)
                        | Inr nst2 \<Rightarrow> genDecayChain k BEL (fst nst2) (snd nst2))))"


subsection \<open>Construction\<close>

text \<open>
  The constructor reads an \<^verbatim>\<open>SMFile\<close>. The parsing layer (\<^verbatim>\<open>Stringmap\<close>,
  \<^verbatim>\<open>split\<close>, \<^verbatim>\<open>atoi\<close>, \<^verbatim>\<open>float_err\<close>) is not modelled: a record below holds the
  values the constructor obtains from one \<^verbatim>\<open>Stringmap\<close>, defaults applied.
  \<open>nm_split\<close> is \<^verbatim>\<open>split(name,".")\<close> with \<^verbatim>\<open>atoi\<close> applied to each part; an entry of
  \<open>g_CE\<close> is one field \<^verbatim>\<open>CE_<shell>\<close> as probability, uncertainty and subshell
  ratios (\<open>None\<close> when the field has no \<^verbatim>\<open>@\<close> part); \<open>ec_to\<close> is \<open>None\<close> for
  \<^verbatim>\<open>AUTO\<close>; \<open>a_dat\<close> is the key/value content of an \<^verbatim>\<open>AugerK\<close> record with
  \<^verbatim>\<open>atof\<close> applied to the values.
\<close>

record LevelRec =
  nm :: string
  nm_split :: "nat list"
  rec_E :: real
  rec_hl :: real
  rec_jpi :: string

record GammaRec =
  g_from :: string
  g_to :: string
  g_Igamma :: real
  g_CE :: "(real \<times> real \<times> real list option) list"

record BetaRec =
  b_from :: string
  b_to :: string
  b_I :: real
  b_positron :: bool
  b_forbidden :: nat

record ECaptRec =
  ec_from :: string
  ec_to :: "string option"
  ec_I :: real

record AugerRec =
  a_Z :: nat
  a_dat :: "(string \<times> real) list"
  a_Iauger :: real

record SMFile =
  q_level :: "LevelRec list"
  q_gamma :: "GammaRec list"
  q_norm_groundstate :: bool
  q_AugerK :: "AugerRec list"
  q_beta :: "BetaRec list"
  q_ecapt :: "ECaptRec list"

text \<open>
  What the constructor uses and the sources do not contain: the binding-energy library,
  the value of \<^verbatim>\<open>getNDF()\<close> for each kind of transition, \<^verbatim>\<open>getPVacant\<close> (it may read
  the atoms), and the quantile function and sampler of a beta spectrum.
\<close>

record Extern =
  BEL :: BindingEnergyLibrary
  getNDF_gamma :: nat
  getNDF_beta :: nat
  getNDF_ecapt :: nat
  getPVacant :: "TransitionBase \<Rightarrow> (nat \<Rightarrow> DecayAtom option) \<Rightarrow> nat \<Rightarrow> real"
  TF1_Quantiles :: "NucLevel \<Rightarrow> NucLevel \<Rightarrow> BetaRec \<Rightarrow> real \<Rightarrow> real"
  TF1_GetRandom :: "NucLevel \<Rightarrow> NucLevel \<Rightarrow> BetaRec \<Rightarrow> real \<Rightarrow> real"

fun foldE :: "('a \<Rightarrow> 's \<Rightarrow> SMExcept + 's) \<Rightarrow> 'a list \<Rightarrow> 's \<Rightarrow> SMExcept + 's" where
  "foldE f [] s = Inr s"
| "foldE f (x # xs) s = bindE (f x s) (foldE f xs)"

definition DBL_MAX :: real where
  "DBL_MAX = (2 ^ 53 - 1) * 2 ^ 971"

text \<open>\<^verbatim>\<open>NucLevel::NucLevel\<close>, lines 61--72.\<close>

definition NucLevel_new :: "LevelRec \<Rightarrow> SMExcept + NucLevel" where
  "NucLevel_new m =
     (if \<not> length (nm_split m) = 3 then Inl (AssertFailed ''v.size()==3'')
      else Inr \<lparr> lev_name = nm m, lev_A = nm_split m ! 0, lev_Z = nm_split m ! 1,
                 lev_n = nm_split m ! 2, lev_E = rec_E m,
                 lev_hl = (if rec_hl m < 0 then DBL_MAX else rec_hl m),
                 lev_jpi = rec_jpi m, fluxIn = 0, fluxOut = 0 \<rparr>)"

text \<open>\<^verbatim>\<open>DecayAtom::load\<close>, lines 88--99.\<close>

definition load :: "AugerRec \<Rightarrow> DecayAtom \<Rightarrow> SMExcept + DecayAtom" where
  "load m a =
     bindE (foldE (\<lambda>kv a. if \<not> length (fst kv) \<noteq> 0 then Inl (AssertFailed ''it->first.size()'')
                           else if hd (fst kv) = CHR ''a''
                                then Inr (a \<lparr> Iauger := Iauger a + snd kv / 100 \<rparr>)
                           else if hd (fst kv) = CHR ''k''
                                then Inr (a \<lparr> Ikxr := Ikxr a + snd kv / 100 \<rparr>)
                           else Inr a) (a_dat m) a) (\<lambda>a1.
       let a2 = a1 \<lparr> Iauger := a_Iauger m / 100 \<rparr>
       in if Iauger a2 = 0 then Inr (a2 \<lparr> pAuger := 0, IMissing := 0 \<rparr>)
          else if Iauger a2 + Ikxr a2 = 0 then Inl (Undefined ''Iauger/(Iauger+Ikxr)'')
          else Inr (a2 \<lparr> pAuger := Iauger a2 / (Iauger a2 + Ikxr a2),
                         IMissing := Iauger a2 + Ikxr a2 - ICEK a2 \<rparr>))"

text \<open>\<^verbatim>\<open>ConversionGamma::ConversionGamma\<close>, lines 123--145.\<close>

definition ConversionGamma_new ::
  "Extern \<Rightarrow> nat \<Rightarrow> nat \<Rightarrow> NucLevel \<Rightarrow> NucLevel \<Rightarrow> GammaRec \<Rightarrow> TransitionBase" where
  "ConversionGamma_new ext f t lf lt m =
     (let ig = g_Igamma m / 100;
          sh = fold (\<lambda>ce P. addProb (fst ce) P) (g_CE m) PSelector0;
          un = map (\<lambda>ce. fst (snd ce) * ig) (g_CE m);
          ssh = map (\<lambda>ce. fold addProb (case snd (snd ce) of None \<Rightarrow> [1] | Some ss \<Rightarrow> ss)
                             PSelector0) (g_CE m);
          sh1 = scale_PSelector ig (addProb 1 sh)
      in \<lparr> tr_from = f, tr_to = t, Itotal = getCumProb sh1, toAtom = None,
            NDF = getNDF_gamma ext,
            kind = ConversionGamma (lev_E lf - lev_E lt) ig sh1 ssh un (- 1) (- 1) \<rparr>)"

definition BetaDecayTrans_new ::
  "Extern \<Rightarrow> nat \<Rightarrow> nat \<Rightarrow> NucLevel \<Rightarrow> NucLevel \<Rightarrow> BetaRec \<Rightarrow> TransitionBase" where
  "BetaDecayTrans_new ext f t lf lt m =
     \<lparr> tr_from = f, tr_to = t, Itotal = 0, toAtom = None, NDF = getNDF_beta ext,
       kind = BetaDecayTrans (b_positron m) (TF1_Quantiles ext lf lt m)
                (TF1_GetRandom ext lf lt m) \<rparr>"

definition ECapture_new :: "Extern \<Rightarrow> nat \<Rightarrow> nat \<Rightarrow> TransitionBase" where
  "ECapture_new ext f t =
     \<lparr> tr_from = f, tr_to = t, Itotal = 0, toAtom = None, NDF = getNDF_ecapt ext,
       kind = ECapture False \<rparr>"

text \<open>\<^verbatim>\<open>levIndex\<close>, lines 433--441.\<close>

definition levIndex :: "NucDecaySystem \<Rightarrow> string \<Rightarrow> SMExcept + nat" where
  "levIndex S s = (case levelIndex S s of None \<Rightarrow> Inl (UnknownLevel s) | Some n \<Rightarrow> Inr n)"

text \<open>The steps of the constructor, lines 270--360, in the order of the source.\<close>

definition NucDecaySystem_empty :: NucDecaySystem where
  "NucDecaySystem_empty =
     \<lparr> levels = [], levelIndex = (\<lambda>s. None), atoms = (\<lambda>z. None), transitions = [],
       transIn = [], transOut = [], levelDecays = [], lStart = PSelector0, tcut = 0 \<rparr>"

definition ctor_level :: "LevelRec \<Rightarrow> NucDecaySystem \<Rightarrow> SMExcept + NucDecaySystem" where
  "ctor_level l S =
     bindE (NucLevel_new l) (\<lambda>L.
       Inr (S \<lparr> levels := levels S @ [L], transIn := transIn S @ [[]],
                transOut := transOut S @ [[]], levelDecays := levelDecays S @ [PSelector0] \<rparr>))"

text \<open>
  \<^verbatim>\<open>std::sort\<close> with \<^verbatim>\<open>sortLevels\<close> orders the levels by energy; it leaves the order
  of levels of equal energy open, and the model keeps their order of appearance.
\<close>

definition ctor_sort :: "NucDecaySystem \<Rightarrow> NucDecaySystem" where
  "ctor_sort S = S \<lparr> levels := sort_key lev_E (levels S) \<rparr>"

definition ctor_index :: "nat \<Rightarrow> NucDecaySystem \<Rightarrow> SMExcept + NucDecaySystem" where
  "ctor_index nlev S =
     (if \<not> levelIndex S (lev_name (levels S ! nlev)) = None
      then Inl (AssertFailed ''levelIndex.find(l.name) == levelIndex.end()'')
      else Inr (S \<lparr> levels := (levels S) [nlev := (levels S ! nlev) \<lparr> lev_n := nlev \<rparr>],
                    levelIndex := (levelIndex S) (lev_name (levels S ! nlev) \<mapsto> nlev) \<rparr>))"

text \<open>
  The two \<^verbatim>\<open>levIndex\<close> calls are arguments of one call; C++ leaves their order open,
  and the model looks \<^verbatim>\<open>from\<close> up first.
\<close>

definition ctor_gamma :: "Extern \<Rightarrow> GammaRec \<Rightarrow> NucDecaySystem \<Rightarrow> SMExcept + NucDecaySystem" where
  "ctor_gamma ext g S =
     bindE (levIndex S (g_from g)) (\<lambda>f.
     bindE (levIndex S (g_to g)) (\<lambda>t.
     bindE (vec_at (levels S) f) (\<lambda>lf.
     bindE (vec_at (levels S) t) (\<lambda>lt.
       addTransition (BEL ext) (ConversionGamma_new ext f t lf lt g) S))))"

definition gsflux :: "NucLevel list \<Rightarrow> real" where
  "gsflux ls = fold (\<lambda>l acc. if fluxOut l = 0 then acc + fluxIn l else acc) ls 0"

definition ctor_norm :: "SMFile \<Rightarrow> NucDecaySystem \<Rightarrow> SMExcept + NucDecaySystem" where
  "ctor_norm Q S =
     (if q_norm_groundstate Q
      then if gsflux (levels S) = 0 then Inl (Undefined ''1./gsflux'')
           else Inr (S \<lparr> transitions := map (scale_Transition (1 / gsflux (levels S))) (transitions S),
                         levels := map (scale_NucLevel (1 / gsflux (levels S))) (levels S) \<rparr>)
      else Inr S)"

definition ctor_ICEK :: "Extern \<Rightarrow> nat \<Rightarrow> NucDecaySystem \<Rightarrow> SMExcept + NucDecaySystem" where
  "ctor_ICEK ext ti S =
     bindE (vec_at (transitions S) ti) (\<lambda>T.
     bindE (deref_toAtom S T) (\<lambda>a.
       Inr (S \<lparr> atoms := (atoms S) (the (toAtom T) \<mapsto>
                   a \<lparr> ICEK := ICEK a + getPVacant ext T (atoms S) 0 * Itotal T \<rparr>) \<rparr>)))"

definition ctor_auger :: "Extern \<Rightarrow> AugerRec \<Rightarrow> NucDecaySystem \<Rightarrow> SMExcept + NucDecaySystem" where
  "ctor_auger ext a S =
     (if a_Z a = 0 then Inl (BadAugerZ (a_Z a))
      else bindE (getAtom (BEL ext) (a_Z a) S) (\<lambda>S1.
           bindE (case atoms S1 (a_Z a) of None \<Rightarrow> Inl (Undefined ''getAtom'') | Some d \<Rightarrow> Inr d) (\<lambda>d.
           bindE (load a d) (\<lambda>d1. Inr (S1 \<lparr> atoms := (atoms S1) (a_Z a \<mapsto> d1) \<rparr>)))))"

definition ctor_beta :: "Extern \<Rightarrow> BetaRec \<Rightarrow> NucDecaySystem \<Rightarrow> SMExcept + NucDecaySystem" where
  "ctor_beta ext bt S =
     bindE (levIndex S (b_from bt)) (\<lambda>f.
     bindE (levIndex S (b_to bt)) (\<lambda>t.
     bindE (vec_at (levels S) f) (\<lambda>lf.
     bindE (vec_at (levels S) t) (\<lambda>lt.
       addTransition (BEL ext)
         ((BetaDecayTrans_new ext f t lf lt bt) \<lparr> Itotal := b_I bt / 100 \<rparr>) S))))"

text \<open>One round of the loop over \<^verbatim>\<open>Ldest\<close> for an \<^verbatim>\<open>AUTO\<close> capture from level \<open>f\<close>.\<close>

definition ctor_ecapt_auto ::
  "Extern \<Rightarrow> nat \<Rightarrow> nat \<Rightarrow> NucDecaySystem \<Rightarrow> SMExcept + NucDecaySystem" where
  "ctor_ecapt_auto ext f i S =
     bindE (vec_at (levels S) f) (\<lambda>Lorig.
     bindE (vec_at (levels S) i) (\<lambda>Ldest.
       if lev_A Ldest = lev_A Lorig \<and> lev_Z Ldest + 1 = lev_Z Lorig \<and> lev_E Ldest < lev_E Lorig
       then if fluxOut Ldest - fluxIn Ldest \<le> 0 then Inr S
            else addTransition (BEL ext)
                   ((ECapture_new ext f i) \<lparr> Itotal := fluxOut Ldest - fluxIn Ldest \<rparr>) S
       else Inr S))"

definition ctor_ecapt :: "Extern \<Rightarrow> ECaptRec \<Rightarrow> NucDecaySystem \<Rightarrow> SMExcept + NucDecaySystem" where
  "ctor_ecapt ext ec S =
     bindE (levIndex S (ec_from ec)) (\<lambda>f.
       case ec_to ec of
         None \<Rightarrow> foldE (ctor_ecapt_auto ext f) [0..<length (levels S)] S
       | Some to \<Rightarrow>
           bindE (levIndex S to) (\<lambda>t.
           bindE (vec_at (levels S) f) (\<lambda>Lorig.
           bindE (vec_at (levels S) t) (\<lambda>Ldest.
             if \<not> (lev_A Ldest = lev_A Lorig \<and> lev_Z Ldest + 1 = lev_Z Lorig
                    \<and> lev_E Ldest < lev_E Lorig)
             then Inl (AssertFailed
                    ''Ldest.A == Lorig.A && Ldest.Z+1 == Lorig.Z && Ldest.E < Lorig.E'')
             else addTransition (BEL ext) ((ECapture_new ext f t) \<lparr> Itotal := ec_I ec \<rparr>) S))))"

definition NucDecaySystem_new :: "Extern \<Rightarrow> SMFile \<Rightarrow> real \<Rightarrow> SMExcept + NucDecaySystem" where
  "NucDecaySystem_new ext Q t =
     bindE (foldE ctor_level (q_level Q) NucDecaySystem_empty) (\<lambda>S1.
     bindE (foldE ctor_index [0..<length (levels S1)] (ctor_sort S1)) (\<lambda>S2.
     bindE (foldE (ctor_gamma ext) (q_gamma Q) S2) (\<lambda>S3.
     bindE (ctor_norm Q S3) (\<lambda>S4.
     bindE (foldE (ctor_ICEK ext) [0..<length (transitions S4)] S4) (\<lambda>S5.
     bindE (foldE (ctor_auger ext) (q_AugerK Q) S5) (\<lambda>S6.
     bindE (foldE (ctor_beta ext) (q_beta Q) S6) (\<lambda>S7.
     bindE (foldE (ctor_ecapt ext) (q_ecapt Q) S7) (\<lambda>S8.
       Inr (setCutoff t S8)))))))))"

subsection \<open>Notions used to state the properties\<close>

text \<open>
  The selector with the given bin weights, the intensities of the transitions out of
  and into a level, and the start weight that \<^verbatim>\<open>setCutoff\<close> gives a level
  (lines 393--396) for the cutoff \<open>t\<close>.
\<close>


definition PSelector_of :: "real list \<Rightarrow> PSelector" where
  "PSelector_of ws = fold addProb ws PSelector0"

definition outWeights :: "NucDecaySystem \<Rightarrow> nat \<Rightarrow> real list" where
  "outWeights S n = map (\<lambda>ti. Itotal (transitions S ! ti)) (transOut S ! n)"

definition inWeights :: "NucDecaySystem \<Rightarrow> nat \<Rightarrow> real list" where
  "inWeights S n = map (\<lambda>ti. Itotal (transitions S ! ti)) (transIn S ! n)"

definition startWeight :: "NucDecaySystem \<Rightarrow> real \<Rightarrow> nat \<Rightarrow> real" where
  "startWeight S t n =
     (if n + 1 = length (levels S) then 1
      else if lev_hl (levels S ! n) > t \<and> transOut S ! n \<noteq> [] then sum_list (inWeights S n)
      else 0)"

text \<open>
  The invariant of a system: the per-level vectors have one entry per level, a level's
  \<open>n\<close> is its position, the levels are in order of energy, every transition joins
  two levels of the system, \<open>transOut[n]\<close> and \<open>transIn[n]\<close> hold exactly the
  transitions that leave and reach level \<open>n\<close>, and the flux accumulators of a level
  are the sums of the intensities of these transitions.
\<close>

definition NucDecaySystem_inv :: "NucDecaySystem \<Rightarrow> bool" where
  "NucDecaySystem_inv S \<longleftrightarrow>
     length (transIn S) = length (levels S)
   \<and> length (transOut S) = length (levels S)
   \<and> length (levelDecays S) = length (levels S)
   \<and> (\<forall>i < length (levels S). lev_n (levels S ! i) = i)
   \<and> sorted (map lev_E (levels S))
   \<and> (\<forall>ti < length (transitions S).
         tr_from (transitions S ! ti) < length (levels S)
       \<and> tr_to (transitions S ! ti) < length (levels S))
   \<and> (\<forall>n < length (levels S).
         transOut S ! n = filter (\<lambda>ti. tr_from (transitions S ! ti) = n) [0..<length (transitions S)])
   \<and> (\<forall>n < length (levels S).
         transIn S ! n = filter (\<lambda>ti. tr_to (transitions S ! ti) = n) [0..<length (transitions S)])
   \<and> (\<forall>n < length (levels S). fluxOut (levels S ! n) = sum_list (outWeights S n))
   \<and> (\<forall>n < length (levels S). fluxIn (levels S ! n) = sum_list (inWeights S n))"

text \<open>
  The per-level selectors as \<^verbatim>\<open>setCutoff\<close> leaves them: one bin per outgoing
  transition, weighted by its intensity.
\<close>

definition decays_fresh :: "NucDecaySystem \<Rightarrow> bool" where
  "decays_fresh S \<longleftrightarrow>
     (\<forall>n < length (levels S). levelDecays S ! n = PSelector_of (outWeights S n))"

text \<open>
  The systems a program can hold: what the constructor returns, and what
  \<^verbatim>\<open>setCutoff\<close> and \<^verbatim>\<open>scale\<close> make of such a system.
\<close>

inductive constructed :: "Extern \<Rightarrow> NucDecaySystem \<Rightarrow> bool" for ext :: Extern where
  constructed_new: "NucDecaySystem_new ext Q t = Inr S \<Longrightarrow> constructed ext S"
| constructed_setCutoff: "constructed ext S \<Longrightarrow> constructed ext (setCutoff t S)"
| constructed_scale: "constructed ext S \<Longrightarrow> constructed ext (scale s S)"

text \<open>
  Invariants of the constructor's phases. Before the first transition is added
  (\<open>pre_inv\<close>) there are no transitions and no flux. While the levels are indexed, the
  first \<open>k\<close> levels carry their position and are the ones the name index knows
  (\<open>levelIndex_upto\<close>); from then on the index knows every level.
\<close>

definition pre_inv :: "NucDecaySystem \<Rightarrow> bool" where
  "pre_inv S \<longleftrightarrow>
     transitions S = []
   \<and> length (transIn S) = length (levels S)
   \<and> length (transOut S) = length (levels S)
   \<and> length (levelDecays S) = length (levels S)
   \<and> (\<forall>x \<in> set (transIn S). x = [])
   \<and> (\<forall>x \<in> set (transOut S). x = [])
   \<and> (\<forall>l \<in> set (levels S). fluxIn l = 0 \<and> fluxOut l = 0)"

definition levelIndex_upto :: "nat \<Rightarrow> NucDecaySystem \<Rightarrow> bool" where
  "levelIndex_upto k S \<longleftrightarrow>
     (\<forall>i < k. lev_n (levels S ! i) = i \<and> levelIndex S (lev_name (levels S ! i)) = Some i)
   \<and> (\<forall>s i. levelIndex S s = Some i \<longrightarrow> i < k \<and> lev_name (levels S ! i) = s)"

definition ctor_inv :: "NucDecaySystem \<Rightarrow> bool" where
  "ctor_inv S \<longleftrightarrow> NucDecaySystem_inv S \<and> levelIndex_upto (length (levels S)) S"

subsection \<open>A test system\<close>

text \<open>
  The three-level chain of the spec's test (top to middle to ground, intensities
  100\% and 100\%), given out of energy order, with ground-state normalisation. The
  external collaborators are the simplest ones: every binding energy is 0, a gamma and a
  beta transition use 3 values of the buffer and an electron capture none.
\<close>

definition chain3_ext :: Extern where
  "chain3_ext =
     \<lparr> BEL = (\<lambda>z. Some \<lparr> bet_Z = z, getSubshellBinding = (\<lambda>s ss. 0) \<rparr>),
       getNDF_gamma = 3, getNDF_beta = 3, getNDF_ecapt = 0,
       getPVacant = (\<lambda>T a s. 0),
       TF1_Quantiles = (\<lambda>lf lt m x. x), TF1_GetRandom = (\<lambda>lf lt m x. x) \<rparr>"

definition chain3_file :: SMFile where
  "chain3_file =
     \<lparr> q_level =
         [\<lparr> nm = ''1.1.2'', nm_split = [1, 1, 2], rec_E = 2, rec_hl = 0, rec_jpi = '''' \<rparr>,
          \<lparr> nm = ''1.1.0'', nm_split = [1, 1, 0], rec_E = 0, rec_hl = - 1, rec_jpi = '''' \<rparr>,
          \<lparr> nm = ''1.1.1'', nm_split = [1, 1, 1], rec_E = 1, rec_hl = 5, rec_jpi = '''' \<rparr>],
       q_gamma =
         [\<lparr> g_from = ''1.1.2'', g_to = ''1.1.1'', g_Igamma = 100, g_CE = [] \<rparr>,
          \<lparr> g_from = ''1.1.1'', g_to = ''1.1.0'', g_Igamma = 100, g_CE = [] \<rparr>],
       q_norm_groundstate = True, q_AugerK = [], q_beta = [], q_ecapt = [] \<rparr>"

definition chain3 :: NucDecaySystem where
  "chain3 = (case NucDecaySystem_new chain3_ext chain3_file 10 of
               Inr S \<Rightarrow> S | Inl e \<Rightarrow> NucDecaySystem_empty)"

text \<open>
  The balance of level \<open>n\<close>: the intensities of its outgoing transitions add up to
  its \<open>fluxOut\<close>, and so does its selector.
\<close>

definition flux_balance :: "NucDecaySystem \<Rightarrow> nat \<Rightarrow> bool" where
  "flux_balance S n \<longleftrightarrow>
     sum_list (map (\<lambda>ti. Itotal (transitions S ! ti)) (transOut S ! n)) = fluxOut (levels S ! n)
   \<and> getCumProb (levelDecays S ! n) = fluxOut (levels S ! n)"

text \<open>
  Two systems with the same graph: they differ at most in the atoms and in the members
  \<open>shell\<close>, \<open>subshell\<close>, \<open>isKCapt\<close> of transitions, which is all a call of
  \<^verbatim>\<open>genDecayChain\<close> writes.
\<close>

definition graph_eq :: "NucDecaySystem \<Rightarrow> NucDecaySystem \<Rightarrow> bool" where
  "graph_eq S S' \<longleftrightarrow>
     levels S' = levels S \<and> levelIndex S' = levelIndex S
   \<and> transIn S' = transIn S \<and> transOut S' = transOut S
   \<and> levelDecays S' = levelDecays S \<and> lStart S' = lStart S \<and> tcut S' = tcut S
   \<and> length (transitions S') = length (transitions S)
   \<and> (\<forall>ti < length (transitions S).
         tr_from (transitions S' ! ti) = tr_from (transitions S ! ti)
       \<and> tr_to (transitions S' ! ti) = tr_to (transitions S ! ti)
       \<and> Itotal (transitions S' ! ti) = Itotal (transitions S ! ti)
       \<and> NDF (transitions S' ! ti) = NDF (transitions S ! ti)
       \<and> toAtom (transitions S' ! ti) = toAtom (transitions S ! ti))"

text \<open>
  Every transition leads to a level of strictly lower energy, and, stated on the
  adjacency lists the generator walks, every transition out of level \<open>n\<close> exists and
  leads to a level of smaller index.
\<close>

definition decreasing :: "NucDecaySystem \<Rightarrow> bool" where
  "decreasing S \<longleftrightarrow>
     (\<forall>ti < length (transitions S).
        lev_E (levels S ! tr_to (transitions S ! ti))
          < lev_E (levels S ! tr_from (transitions S ! ti)))"

definition downward :: "NucDecaySystem \<Rightarrow> bool" where
  "downward S \<longleftrightarrow>
     length (transOut S) = length (levels S)
   \<and> (\<forall>n < length (levels S). \<forall>ti \<in> set (transOut S ! n).
         ti < length (transitions S)
       \<and> tr_to (transitions S ! ti) < length (levels S)
       \<and> lev_n (levels S ! tr_to (transitions S ! ti)) < n)"

text \<open>
  One call of \<^verbatim>\<open>genDecayChain\<close> up to its recursive call: either the call ends
  (\<open>Inl\<close>, with an exception or the final state) or it goes on at a level with a
  state (\<open>Inr\<close>).
\<close>

definition chain_step_at ::
  "BindingEnergyLibrary \<Rightarrow> bool \<Rightarrow> nat \<Rightarrow> GenState \<Rightarrow> (SMExcept + GenState) + (nat \<times> GenState)" where
  "chain_step_at B init n st =
     (case vec_at (levels (sys st)) n of
        Inl e \<Rightarrow> Inl (Inl e)
      | Inr l \<Rightarrow>
          if fluxOut l = 0 \<or> (\<not> init \<and> lev_hl l > tcut (sys st))
          then Inl (Inr st)
          else (case fire B n st of
                  Inl e \<Rightarrow> Inl (Inl e)
                | Inr nst2 \<Rightarrow> Inr nst2))"

definition chain_step ::
  "BindingEnergyLibrary \<Rightarrow> nat \<Rightarrow> GenState \<Rightarrow> (SMExcept + GenState) + (nat \<times> GenState)" where
  "chain_step B n st =
     (let init = (n \<ge> length (levels (sys st)))
      in case (if init
               then bindE (select_rnd (lStart (sys st)) (rnd_ptr st) (gRandom st)) (\<lambda>sel.
                      Inr (fst sel, st \<lparr> rnd_ptr := fst (snd sel), gRandom := snd (snd sel) \<rparr>))
               else Inr (n, st)) of
           Inl e \<Rightarrow> Inl (Inl e)
         | Inr nst \<Rightarrow> chain_step_at B init (fst nst) (snd nst))"

text \<open>A state for a call on the test system, with a caller's buffer or without.\<close>

definition chain3_state :: "rndbuf option \<Rightarrow> GenState" where
  "chain3_state r = \<lparr> sys = chain3, out_v = [], rnd_ptr = r, gRandom = ((\<lambda>i. 1 / 2), 0) \<rparr>"







definition nonneg_intensities :: "NucDecaySystem \<Rightarrow> bool" where
  "nonneg_intensities S \<longleftrightarrow> (\<forall>ti < length (transitions S). 0 \<le> Itotal (transitions S ! ti))"

text \<open>
  The selectors of a transition: for a \<^verbatim>\<open>ConversionGamma\<close> its intensity, \<open>shells\<close>
  and \<open>subshells\<close>; the other transitions have none. \<open>shells_total\<close>: the total of
  \<open>shells\<close> is the intensity of the transition. \<open>subshells_positive\<close>: every subshell
  selector has a positive total.
\<close>

definition shells_of :: "TransitionBase \<Rightarrow> (real \<times> PSelector \<times> PSelector list) option" where
  "shells_of T =
     (case kind T of
        ConversionGamma eg ig shs sshs un s1 s2 \<Rightarrow> Some (Itotal T, shs, sshs)
      | _ \<Rightarrow> None)"


definition subshells_positive :: "NucDecaySystem \<Rightarrow> bool" where
  "subshells_positive S \<longleftrightarrow>
     (\<forall>T \<in> set (transitions S).
        case shells_of T of
          None \<Rightarrow> True
        | Some x \<Rightarrow> (\<forall>P \<in> set (snd (snd x)). 0 < getCumProb P))"






text \<open>
  The calls of \<^verbatim>\<open>genDecayChain\<close> on a constructed system: \<open>chain_call ext B st\<close>
  holds of the state of the first call on a system the constructor returned (with a level,
  no negative intensity, subshell selectors of positive total and fewer than \<open>2^32\<close>
  transitions), possibly after \<^verbatim>\<open>setCutoff\<close>, and of the state of every recursive
  call made from such a call.
\<close>

inductive chain_call :: "Extern \<Rightarrow> BindingEnergyLibrary \<Rightarrow> GenState \<Rightarrow> bool"
  for ext :: Extern and B :: BindingEnergyLibrary where
  chain_call_new:
    "NucDecaySystem_new ext Q t = Inr S \<Longrightarrow> nonneg_intensities S \<Longrightarrow> levels S \<noteq> []
       \<Longrightarrow> subshells_positive S \<Longrightarrow> length (transitions S) < 2 ^ 32
       \<Longrightarrow> sys st = S \<Longrightarrow> chain_call ext B st"
| chain_call_setCutoff:
    "chain_call ext B st \<Longrightarrow> sys st' = setCutoff t (sys st) \<Longrightarrow> chain_call ext B st'"
| chain_call_rec:
    "chain_call ext B st \<Longrightarrow> chain_step B n st = Inr c \<Longrightarrow> chain_call ext B (snd c)"




subsection \<open>Notions used to compare two calls\<close>

text \<open>
  What a call with a caller's buffer can read of a transition: all but the members
  \<open>shell\<close>, \<open>subshell\<close> and \<open>isKCapt\<close>, which \<^verbatim>\<open>run\<close> writes before it reads them.
  Two states have the same input for such a call when they agree on the output vector,
  on the buffer and on the decay graph; the ambient source and the table of atoms are
  left open.
\<close>

definition strip_kind :: "TransKind \<Rightarrow> TransKind" where
  "strip_kind K =
     (case K of
        ConversionGamma eg ig shs sshs un s1 s2 \<Rightarrow> ConversionGamma eg ig shs sshs un (- 1) (- 1)
      | BetaDecayTrans p q r \<Rightarrow> BetaDecayTrans p q r
      | ECapture k \<Rightarrow> ECapture False)"

definition run_view ::
  "TransitionBase \<Rightarrow> nat \<times> nat \<times> real \<times> nat option \<times> nat \<times> TransKind" where
  "run_view T = (tr_from T, tr_to T, Itotal T, toAtom T, NDF T, strip_kind (kind T))"

definition same_input :: "GenState \<Rightarrow> GenState \<Rightarrow> bool" where
  "same_input st st' \<longleftrightarrow>
     out_v st' = out_v st \<and> rnd_ptr st' = rnd_ptr st
   \<and> levels (sys st') = levels (sys st) \<and> transOut (sys st') = transOut (sys st)
   \<and> levelDecays (sys st') = levelDecays (sys st) \<and> lStart (sys st') = lStart (sys st)
   \<and> tcut (sys st') = tcut (sys st)
   \<and> map run_view (transitions (sys st')) = map run_view (transitions (sys st))"

text \<open>
  A system none of whose transitions draws from the ambient source when it is run with a
  buffer: no electron capture, and no gamma with conversion electrons (which would leave
  vacancies for \<^verbatim>\<open>genAuger\<close> to fill).
\<close>

definition no_ambient :: "NucDecaySystem \<Rightarrow> bool" where
  "no_ambient S \<longleftrightarrow>
     (\<forall>T \<in> set (transitions S).
        case kind T of
          ConversionGamma eg ig shs sshs un s1 s2 \<Rightarrow> sshs = []
        | BetaDecayTrans p q r \<Rightarrow> True
        | ECapture k \<Rightarrow> False)"

text \<open>
  The outcome of a call as its caller sees it: the output vector, or the error. The state
  of a second call that follows a first one: the system and the ambient source as the
  first call left them, the output vector and the buffer as they were given to the first.
\<close>

definition chain_events ::
  "(SMExcept + GenState) option \<Rightarrow> (SMExcept + NucDecayEvent list) option" where
  "chain_events r = map_option (map_sum id out_v) r"

definition second_call :: "(SMExcept + GenState) option \<Rightarrow> GenState \<Rightarrow> GenState" where
  "second_call r st =
     (case r of
        Some (Inr s) \<Rightarrow> s \<lparr> out_v := out_v st, rnd_ptr := rnd_ptr st \<rparr>
      | _ \<Rightarrow> st)"

text \<open>
  An electron capture from the level \<open>1.2.0\<close> to the ground level \<open>1.1.0\<close>, with an
  \<^verbatim>\<open>AugerK\<close> record for \<open>Z = 1\<close> that makes \<open>pAuger = 1/2\<close>. The state of a call on it
  with a buffer of values 1/2, the ambient source giving 1/4 four times and 3/4 from then
  on.
\<close>

definition ecapt_file :: SMFile where
  "ecapt_file =
     \<lparr> q_level =
         [\<lparr> nm = ''1.2.0'', nm_split = [1, 2, 0], rec_E = 1, rec_hl = 0, rec_jpi = '''' \<rparr>,
          \<lparr> nm = ''1.1.0'', nm_split = [1, 1, 0], rec_E = 0, rec_hl = - 1, rec_jpi = '''' \<rparr>],
       q_gamma = [], q_norm_groundstate = False,
       q_AugerK = [\<lparr> a_Z = 1, a_dat = [(''Iauger'', 50), (''Z'', 1), (''kxr'', 50)],
                     a_Iauger = 50 \<rparr>],
       q_beta = [],
       q_ecapt = [\<lparr> ec_from = ''1.2.0'', ec_to = Some ''1.1.0'', ec_I = 1 \<rparr>] \<rparr>"

definition ecapt_sys :: NucDecaySystem where
  "ecapt_sys = (case NucDecaySystem_new chain3_ext ecapt_file 10 of
                  Inr S \<Rightarrow> S | Inl e \<Rightarrow> NucDecaySystem_empty)"

definition ecapt_state :: GenState where
  "ecapt_state =
     \<lparr> sys = ecapt_sys, out_v = [], rnd_ptr = Some ((\<lambda>i. 1 / 2), 0),
       gRandom = ((\<lambda>i. if i < 4 then 1 / 4 else 3 / 4), 0) \<rparr>"

subsection \<open>Double-precision arithmetic\<close>

text \<open>
  An operation of the source on \<^verbatim>\<open>double\<close>s is an IEEE-754 binary64 operation: the exact
  result, rounded to the nearest double, ties to the even significand. \<open>rne\<close> rounds to
  the nearest integer, ties to even; \<open>binade x\<close> is the exponent of \<open>x\<close>, not below
  that of the subnormal range; \<open>ulp x\<close> is the distance of the doubles around \<open>x\<close>;
  \<open>fl x\<close> is the double nearest to \<open>x\<close>. A finite double is a real number that
  rounding leaves unchanged and that lies below \<open>2^1024\<close>. \<open>fin x\<close> is the result of
  an operation with exact result \<open>x\<close>: \<open>None\<close> stands for an infinity, and in
  \<open>quot_d\<close>, the quotient of two such results, for an infinity or a NaN. A zero is not
  given a sign.
\<close>

definition rne :: "real \<Rightarrow> int" where
  "rne y = (let f = \<lfloor>y\<rfloor>
            in if y - of_int f < 1 / 2 then f
               else if 1 / 2 < y - of_int f then f + 1
               else if even f then f else f + 1)"

definition binade :: "real \<Rightarrow> int" where
  "binade x = max \<lfloor>log 2 \<bar>x\<bar>\<rfloor> (- 1022)"

definition ulp :: "real \<Rightarrow> real" where
  "ulp x = 2 powi (binade x - 52)"

definition fl :: "real \<Rightarrow> real" where
  "fl x = (if x = 0 then 0
           else if x < 0 then - (of_int (rne (- x / ulp x)) * ulp x)
           else of_int (rne (x / ulp x)) * ulp x)"

definition is_double :: "real \<Rightarrow> bool" where
  "is_double x \<longleftrightarrow> fl x = x \<and> \<bar>x\<bar> < 2 powi 1024"



subsection \<open>PSelector in double precision\<close>






subsection \<open>The decay system in double precision\<close>

text \<open>
  Modelled from the spec: \<^verbatim>\<open>PSelector::addProb\<close> is declared in \<^verbatim>\<open>NuclEvtGen.hh\<close>; it
  ``appends a new bin of weight \<open>w\<close>, extending the cumulative total'', in doubles by
  the rounded sum of the total and \<open>w\<close>. \<open>PSelector_of_d\<close> is the selector built from
  bin weights in order, \<open>sum_d\<close> the accumulation \<^verbatim>\<open>p += w\<close> over a list.
\<close>

definition addProb_d :: "real \<Rightarrow> PSelector \<Rightarrow> PSelector" where
  "addProb_d w P = P \<lparr> cumprob := cumprob P @ [fl (last (cumprob P) + w)] \<rparr>"

definition PSelector_of_d :: "real list \<Rightarrow> PSelector" where
  "PSelector_of_d ws = fold addProb_d ws PSelector0"

definition sum_d :: "real list \<Rightarrow> real \<Rightarrow> real" where
  "sum_d ws p = fold (\<lambda>w p. fl (p + w)) ws p"

text \<open>
  \<^verbatim>\<open>setCutoff\<close>, lines 385--399, in doubles: the body of the loop over \<open>n\<close>, then the
  whole.
\<close>

definition setCutoff_level_d :: "nat \<Rightarrow> NucDecaySystem \<Rightarrow> NucDecaySystem" where
  "setCutoff_level_d n S =
     (let ld = fold (\<lambda>t P. addProb_d (Itotal (transitions S ! t)) P) (transOut S ! n) PSelector0;
          pStart0 = (if n + 1 = length (levels S) then 1 else 0 :: real);
          pStart = (if pStart0 = 0 \<and> lev_hl (levels S ! n) > tcut S \<and> transOut S ! n \<noteq> []
                    then fold (\<lambda>t p. fl (p + Itotal (transitions S ! t))) (transIn S ! n) pStart0
                    else pStart0)
      in S \<lparr> levelDecays := (levelDecays S) [n := ld],
             lStart := addProb_d pStart (lStart S) \<rparr>)"

definition setCutoff_d :: "real \<Rightarrow> NucDecaySystem \<Rightarrow> NucDecaySystem" where
  "setCutoff_d t S =
     fold setCutoff_level_d [0..<length (levels S)] (S \<lparr> tcut := t, lStart := PSelector0 \<rparr>)"

text \<open>
  \<^verbatim>\<open>NucDecaySystem::scale\<close>, lines 478--486, in doubles, with \<^verbatim>\<open>ConversionGamma::scale\<close>
  (lines 225--229); every product and quotient is rounded. The definitions are for
  systems and factors whose products stay below the largest double.
\<close>

definition scale_PSelector_d :: "real \<Rightarrow> PSelector \<Rightarrow> PSelector" where
  "scale_PSelector_d s P = P \<lparr> cumprob := map (\<lambda>p. fl (p * s)) (cumprob P) \<rparr>"

definition scale_Transition_d :: "real \<Rightarrow> TransitionBase \<Rightarrow> TransitionBase" where
  "scale_Transition_d s T =
     (case kind T of
        ConversionGamma eg ig sh ssh un s1 s2 \<Rightarrow>
          T \<lparr> Itotal := fl (Itotal T * s),
              kind := ConversionGamma eg (fl (ig / s)) (scale_PSelector_d s sh) ssh un s1 s2 \<rparr>
      | _ \<Rightarrow> T \<lparr> Itotal := fl (Itotal T * s) \<rparr>)"

definition scale_NucLevel_d :: "real \<Rightarrow> NucLevel \<Rightarrow> NucLevel" where
  "scale_NucLevel_d s L = L \<lparr> fluxIn := fl (fluxIn L * s), fluxOut := fl (fluxOut L * s) \<rparr>"

definition scale_sys_d :: "real \<Rightarrow> NucDecaySystem \<Rightarrow> NucDecaySystem" where
  "scale_sys_d s S =
     S \<lparr> lStart := scale_PSelector_d s (lStart S),
         transitions := map (scale_Transition_d s) (transitions S),
         levels := map (scale_NucLevel_d s) (levels S),
         levelDecays := map (scale_PSelector_d s) (take (length (levels S)) (levelDecays S))
                        @ drop (length (levels S)) (levelDecays S) \<rparr>"

text \<open>
  The system the constructor builds, before its final \<^verbatim>\<open>setCutoff\<close>, from two levels
  and two gammas of 1\% and 4\% from the upper to the lower level, without conversion
  electrons and without normalisation: \<open>Igamma\<close> is the rounded quotient by 100, and
  \<open>addTransition\<close> has accumulated the intensities in the flux members and in
  \<open>levelDecays\<close>. \<open>gamma2\<close> is the system the constructor returns for the cutoff 10.
\<close>

definition gamma2_transition :: "real \<Rightarrow> TransitionBase" where
  "gamma2_transition i =
     \<lparr> tr_from = 1, tr_to = 0, Itotal = i, toAtom = Some 1, NDF = 3,
       kind = ConversionGamma 1 i \<lparr> cumprob = [0, i] \<rparr> [] [] (- 1) (- 1) \<rparr>"

definition gamma2_built :: NucDecaySystem where
  "gamma2_built =
     \<lparr> levels =
         [\<lparr> lev_name = ''1.1.0'', lev_A = 1, lev_Z = 1, lev_n = 0, lev_E = 0, lev_hl = DBL_MAX,
            lev_jpi = [], fluxIn = fl (fl (1 / 100) + fl (4 / 100)), fluxOut = 0 \<rparr>,
          \<lparr> lev_name = ''1.1.1'', lev_A = 1, lev_Z = 1, lev_n = 1, lev_E = 1, lev_hl = 0,
            lev_jpi = [], fluxIn = 0, fluxOut = fl (fl (1 / 100) + fl (4 / 100)) \<rparr>],
       levelIndex = [''1.1.0'' \<mapsto> 0, ''1.1.1'' \<mapsto> 1],
       atoms = [1 \<mapsto> DecayAtom_new \<lparr> bet_Z = 1, getSubshellBinding = (\<lambda>s ss. 0) \<rparr>],
       transitions = [gamma2_transition (fl (1 / 100)), gamma2_transition (fl (4 / 100))],
       transIn = [[0, 1], []], transOut = [[], [0, 1]],
       levelDecays = [PSelector0, addProb_d (fl (4 / 100)) (addProb_d (fl (1 / 100)) PSelector0)],
       lStart = PSelector0, tcut = 0 \<rparr>"

definition gamma2 :: NucDecaySystem where
  "gamma2 = setCutoff_d 10 gamma2_built"

section \<open>Verification\<close>

subsection \<open>Facts about selectors\<close>

lemma PSelector_inv_PSelector0: "PSelector_inv PSelector0"
  by (simp add: PSelector_inv_def PSelector0_def)

lemma sorted_le_last: "sorted cs \<Longrightarrow> x \<in> set cs \<Longrightarrow> x \<le> last (cs :: real list)"
  by (induction cs) auto

lemma PSelector_inv_addProb:
  assumes "PSelector_inv P" "0 \<le> p"
  shows "PSelector_inv (addProb p P)"
proof -
  from assms have ne: "cumprob P \<noteq> []" and so: "sorted (cumprob P)"
    by (simp_all add: PSelector_inv_def)
  have "\<forall>x\<in>set (cumprob P). x \<le> last (cumprob P)"
    using so ne by (simp add: sorted_le_last)
  with assms show ?thesis
    by (auto simp: PSelector_inv_def addProb_def sorted_append)
qed


lemma upper_bound_before: "i < upper_bound cs x \<Longrightarrow> cs ! i \<le> x"
proof (induction cs arbitrary: i)
  case Nil
  then show ?case by simp
next
  case (Cons c cs)
  then show ?case by (cases i) (auto split: if_splits)
qed

lemma upper_bound_at: "upper_bound cs x < length cs \<Longrightarrow> x < cs ! upper_bound cs x"
  by (induction cs) auto

lemma upper_bound_least: "i < length cs \<Longrightarrow> x < cs ! i \<Longrightarrow> upper_bound cs x \<le> i"
proof (induction cs arbitrary: i)
  case Nil
  then show ?case by simp
next
  case (Cons c cs)
  then show ?case by (cases i) auto
qed

lemma upper_bound_mono: "x \<le> y \<Longrightarrow> upper_bound cs x \<le> upper_bound cs y"
  by (induction cs) auto

lemma upper_bound_scale:
  "0 < s \<Longrightarrow> upper_bound (map (\<lambda>p. p * s) cs) (x * s) = upper_bound cs x"
  by (induction cs) auto

lemma sorted_bracket_unique:
  fixes cs :: "real list"
  assumes "sorted cs" "Suc i < length cs" "Suc j < length cs"
    and "cs ! i \<le> x" "x < cs ! Suc i" "cs ! j \<le> x" "x < cs ! Suc j"
  shows "i = j"
proof (rule ccontr)
  assume "i \<noteq> j"
  then consider "Suc i \<le> j" | "Suc j \<le> i" by linarith
  then show False
  proof cases
    case 1
    then have "cs ! Suc i \<le> cs ! j" using assms(1,3) by (simp add: sorted_nth_mono)
    with assms show False by linarith
  next
    case 2
    then have "cs ! Suc j \<le> cs ! i" using assms(1,2) by (simp add: sorted_nth_mono)
    with assms show False by linarith
  qed
qed

text \<open>
  What lines 16--20 compute on a value inside the range of the cumulative weights.
\<close>

lemma select_scaled_bracket:
  assumes inv: "PSelector_inv P" and len: "length (cumprob P) \<le> 2 ^ 32"
    and x0: "0 \<le> x" and x1: "x < last (cumprob P)"
  shows "\<exists>i. select_scaled P x =
            Inr (i, (x - cumprob P ! i) / (cumprob P ! Suc i - cumprob P ! i))
          \<and> Suc i = upper_bound (cumprob P) x
          \<and> Suc i < length (cumprob P)
          \<and> cumprob P ! i \<le> x \<and> x < cumprob P ! Suc i"
proof -
  let ?cs = "cumprob P"
  let ?k = "upper_bound ?cs x"
  from inv have ne: "?cs \<noteq> []" and hd0: "hd ?cs = 0"
    by (simp_all add: PSelector_inv_def)
  from ne hd0 x0 have kpos: "0 < ?k" by (cases ?cs) auto
  have lastn: "last ?cs = ?cs ! (length ?cs - 1)" using ne by (simp add: last_conv_nth)
  have "?k \<le> length ?cs - 1"
    using upper_bound_least [of "length ?cs - 1" ?cs x] ne x1 lastn by simp
  with ne have klt: "?k < length ?cs" by (cases ?cs) auto
  from kpos obtain i where ki: "?k = Suc i" by (cases ?k) auto
  have "int ?k - 1 = int i" using ki by simp
  moreover have "int i < 2 ^ 32" using ki klt len by simp
  ultimately have sel: "nat ((int ?k - 1) mod 2 ^ 32) = i" by simp
  have lo: "?cs ! i \<le> x" using upper_bound_before [of i ?cs x] ki by simp
  have hi: "x < ?cs ! Suc i" using upper_bound_at [of ?cs x] klt ki by simp
  have "select_scaled P x = Inr (i, (x - ?cs ! i) / (?cs ! Suc i - ?cs ! i))"
    using sel klt ki by (simp add: select_scaled_def Let_def)
  with ki klt lo hi show ?thesis by auto
qed

lemma select_scaled_scale:
  assumes "0 < s"
  shows "select_scaled (scale_PSelector s P) (x * s) = select_scaled P x"
proof -
  have "\<And>a b c :: real. (a * s - b * s) / (c * s - b * s) = (a - b) / (c - b)"
  proof -
    fix a b c :: real
    have "(a * s - b * s) / (c * s - b * s) = ((a - b) * s) / ((c - b) * s)"
      by (simp add: algebra_simps)
    also have "\<dots> = (a - b) / (c - b)" using assms by simp
    finally show "(a * s - b * s) / (c * s - b * s) = (a - b) / (c - b)" .
  qed
  then show ?thesis
    using assms
    by (simp add: select_scaled_def scale_PSelector_def upper_bound_scale Let_def)
qed

lemma select_in_unit_interval:
  assumes inv: "PSelector_inv P" and len: "length (cumprob P) \<le> 2 ^ 32"
    and tot: "0 < last (cumprob P)" and x0: "0 \<le> x" and x1: "x < 1"
  shows "\<exists>i. select P x =
            Inr (i, (x * last (cumprob P) - cumprob P ! i) / (cumprob P ! Suc i - cumprob P ! i))
          \<and> Suc i = upper_bound (cumprob P) (x * last (cumprob P))
          \<and> Suc i < length (cumprob P)
          \<and> cumprob P ! i \<le> x * last (cumprob P) \<and> x * last (cumprob P) < cumprob P ! Suc i"
proof -
  have a: "0 \<le> x * last (cumprob P)" using x0 tot by simp
  have b: "x * last (cumprob P) < last (cumprob P)" using x1 tot by simp
  have c: "select P x = select_scaled P (x * last (cumprob P))"
    using x0 x1 by (simp add: select_def)
  show ?thesis using select_scaled_bracket [OF inv len a b] c by simp
qed

subsection \<open>Claims about PSelector\<close>

text \<open>
  The selection in exact arithmetic, the real numbers in place of the doubles. For a
  selector with positive total weight (cumulative weights starting at 0 and
  non-decreasing, fewer than \<open>2^32\<close> bins) and a supplied \<open>x\<close> with \<open>0 \<le> x < 1\<close>,
  \<open>select\<close> returns the unique bin \<open>i\<close> with
  \<open>cumprob[i] \<le> x * total < cumprob[i+1]\<close> and writes back
  \<open>(x * total - cumprob[i]) / (cumprob[i+1] - cumprob[i])\<close>, which lies in \<open>[0,1)\<close>.
  The selected bin never decreases as \<open>x\<close> grows, and every bin of positive weight is
  selected by some \<open>x\<close> in \<open>[0,1)\<close>: a sweep of \<open>x\<close> visits the positive-weight bins
  once each, in increasing order.
\<close>

lemma select_unique_bin_residual_sweep:
  assumes inv: "PSelector_inv P" and len: "length (cumprob P) \<le> 2 ^ 32"
    and tot: "0 < getCumProb P" and x0: "0 \<le> x" and x1: "x < 1"
  shows "\<exists>i r. select P x = Inr (i, r)
          \<and> i < getN P
          \<and> cumprob P ! i \<le> x * getCumProb P \<and> x * getCumProb P < cumprob P ! (i + 1)
          \<and> (\<forall>j. j < getN P \<and> cumprob P ! j \<le> x * getCumProb P
                   \<and> x * getCumProb P < cumprob P ! (j + 1) \<longrightarrow> j = i)
          \<and> r = (x * getCumProb P - cumprob P ! i) / (cumprob P ! (i + 1) - cumprob P ! i)
          \<and> 0 \<le> r \<and> r < 1
          \<and> (\<forall>y j q. x \<le> y \<and> y < 1 \<and> select P y = Inr (j, q) \<longrightarrow> i \<le> j)
          \<and> (\<forall>j. j < getN P \<and> cumprob P ! j < cumprob P ! (j + 1) \<longrightarrow>
                 (\<exists>y q. 0 \<le> y \<and> y < 1 \<and> select P y = Inr (j, q)))"
proof -
  let ?cs = "cumprob P"
  let ?t = "last ?cs"
  from tot have t: "0 < ?t" by (simp add: getCumProb_def)
  from inv have so: "sorted ?cs" and ne: "?cs \<noteq> []" and hd0: "hd ?cs = 0"
    by (simp_all add: PSelector_inv_def)
  from select_in_unit_interval [OF inv len t x0 x1]
  obtain i where sel: "select P x = Inr (i, (x * ?t - ?cs ! i) / (?cs ! Suc i - ?cs ! i))"
    and ub: "Suc i = upper_bound ?cs (x * ?t)" and ilt: "Suc i < length ?cs"
    and lo: "?cs ! i \<le> x * ?t" and hi: "x * ?t < ?cs ! Suc i"
    by blast
  let ?r = "(x * ?t - ?cs ! i) / (?cs ! Suc i - ?cs ! i)"
  have den: "0 < ?cs ! Suc i - ?cs ! i" using lo hi by linarith
  have r0: "0 \<le> ?r" using lo den by simp
  have r1: "?r < 1" using hi den by simp
  have uniq: "\<forall>j. j < getN P \<and> ?cs ! j \<le> x * ?t \<and> x * ?t < ?cs ! (j + 1) \<longrightarrow> j = i"
  proof (intro allI impI)
    fix j assume j: "j < getN P \<and> ?cs ! j \<le> x * ?t \<and> x * ?t < ?cs ! (j + 1)"
    then have "j < length ?cs - 1" by (simp add: getN_def)
    then have "Suc j < length ?cs" by linarith
    from sorted_bracket_unique [OF so this ilt _ _ lo hi] j show "j = i" by simp
  qed
  have mono: "\<forall>y j q. x \<le> y \<and> y < 1 \<and> select P y = Inr (j, q) \<longrightarrow> i \<le> j"
  proof (intro allI impI)
    fix y j q assume y: "x \<le> y \<and> y < 1 \<and> select P y = Inr (j, q)"
    then have y0: "0 \<le> y" and y1: "y < 1" using x0 by simp_all
    from select_in_unit_interval [OF inv len t y0 y1] y
    have "Suc j = upper_bound ?cs (y * ?t)" by auto
    moreover have "x * ?t \<le> y * ?t" using y t by simp
    ultimately show "i \<le> j" using ub upper_bound_mono [of "x * ?t" "y * ?t" ?cs] by simp
  qed
  have onto: "\<forall>j. j < getN P \<and> ?cs ! j < ?cs ! (j + 1) \<longrightarrow>
                 (\<exists>y q. 0 \<le> y \<and> y < 1 \<and> select P y = Inr (j, q))"
  proof (intro allI impI)
    fix j assume j: "j < getN P \<and> ?cs ! j < ?cs ! (j + 1)"
    then have "j < length ?cs - 1" by (simp add: getN_def)
    then have jl: "Suc j < length ?cs" by linarith
    let ?y = "?cs ! j / ?t"
    have "?cs ! 0 \<le> ?cs ! j" using so jl by (simp add: sorted_nth_mono)
    then have cj0: "0 \<le> ?cs ! j" using hd0 ne by (simp add: hd_conv_nth)
    have "?cs ! Suc j \<le> ?t" using so jl by (simp add: sorted_le_last)
    then have cjt: "?cs ! j < ?t" using j by simp
    have y0: "0 \<le> ?y" using cj0 t by simp
    have y1: "?y < 1" using cjt t by simp
    have yt: "?y * ?t = ?cs ! j" using t by simp
    from select_in_unit_interval [OF inv len t y0 y1]
    obtain k where k: "select P ?y = Inr (k, (?y * ?t - ?cs ! k) / (?cs ! Suc k - ?cs ! k))"
      and kl: "Suc k < length ?cs" and klo: "?cs ! k \<le> ?y * ?t" and khi: "?y * ?t < ?cs ! Suc k"
      by blast
    have "k = j"
      using sorted_bracket_unique [OF so kl jl, of "?cs ! j"] klo khi j yt by simp
    with k y0 y1 show "\<exists>y q. 0 \<le> y \<and> y < 1 \<and> select P y = Inr (j, q)" by blast
  qed
  have ig: "i < getN P" using ilt by (simp add: getN_def)
  have hi': "x * ?t < ?cs ! (i + 1)" using hi by simp
  have sel': "select P x = Inr (i, (x * ?t - ?cs ! i) / (?cs ! (i + 1) - ?cs ! i))"
    using sel by simp
  have r0': "0 \<le> (x * ?t - ?cs ! i) / (?cs ! (i + 1) - ?cs ! i)" using r0 by simp
  have r1': "(x * ?t - ?cs ! i) / (?cs ! (i + 1) - ?cs ! i) < 1" using r1 by simp
  show ?thesis unfolding getCumProb_def
    by (rule exI [of _ i], rule exI [of _ "(x * ?t - ?cs ! i) / (?cs ! (i + 1) - ?cs ! i)"])
       (intro conjI sel' ig lo hi' uniq refl r0' r1' mono onto)
qed

lemma select_unique_bin_residual_sweep_witness:
  "PSelector_inv (addProb 3 (addProb 1 PSelector0))
   \<and> 0 < getCumProb (addProb 3 (addProb 1 PSelector0))
   \<and> (\<exists>i r. select (addProb 3 (addProb 1 PSelector0)) (1 / 2) = Inr (i, r)
         \<and> i < getN (addProb 3 (addProb 1 PSelector0)) \<and> 0 \<le> r \<and> r < 1)
   \<and> select (addProb 3 (addProb 1 PSelector0)) (1 / 2) = Inr (1, 1 / 3)"
proof -
  let ?P = "addProb 3 (addProb 1 PSelector0)"
  have cs: "cumprob ?P = [0, 1, 4]" by (simp add: addProb_def PSelector0_def)
  have inv: "PSelector_inv ?P" by (simp add: PSelector_inv_def cs)
  have len: "length (cumprob ?P) \<le> 2 ^ 32" by (simp add: cs)
  have tot: "0 < getCumProb ?P" by (simp add: getCumProb_def cs)
  have ev: "select ?P (1 / 2) = Inr (1, 1 / 3)"
    by (simp add: select_def select_scaled_def cs Let_def)
  from select_unique_bin_residual_sweep [OF inv len tot, of "1 / 2"]
  have "\<exists>i r. select ?P (1 / 2) = Inr (i, r) \<and> i < getN ?P \<and> 0 \<le> r \<and> r < 1"
    by auto
  with inv tot ev show ?thesis by (simp only: simp_thms)
qed

text \<open>
  Scaling in exact arithmetic, the real numbers in place of the doubles. For
  \<open>s > 0\<close>, \<open>scale(s)\<close> multiplies every cumulative weight, and so the total,
  by \<open>s\<close>, and changes neither \<open>getProb(n)\<close> for any bin \<open>n\<close> nor what \<open>select\<close>
  returns and writes back for any supplied \<open>x\<close>.
\<close>

lemma scale_keeps_probabilities:
  assumes s: "0 < s" and ne: "cumprob P \<noteq> []"
  shows "(\<forall>n. getProb (scale_PSelector s P) n = getProb P n)
       \<and> (\<forall>x. select (scale_PSelector s P) x = select P x)
       \<and> cumprob (scale_PSelector s P) = map (\<lambda>p. p * s) (cumprob P)
       \<and> getCumProb (scale_PSelector s P) = getCumProb P * s"
proof -
  have la: "last (cumprob (scale_PSelector s P)) = last (cumprob P) * s"
    using ne by (simp add: scale_PSelector_def last_map)
  have gp: "getProb (scale_PSelector s P) n = getProb P n" for n
  proof (cases "n < length (cumprob P) - 1")
    case False
    then show ?thesis by (simp add: getProb_def scale_PSelector_def)
  next
    case True
    have "(a * s - b * s) / (c * s) = (a - b) / c" for a b c :: real
    proof -
      have "(a * s - b * s) / (c * s) = ((a - b) * s) / (c * s)" by (simp only: left_diff_distrib)
      also have "\<dots> = (a - b) / c" using s by simp
      finally show ?thesis .
    qed
    note q = this
    have l: "length (cumprob (scale_PSelector s P)) = length (cumprob P)"
      by (simp add: scale_PSelector_def)
    have n1: "cumprob (scale_PSelector s P) ! (n + 1) = cumprob P ! (n + 1) * s"
      and n0: "cumprob (scale_PSelector s P) ! n = cumprob P ! n * s"
      using True by (simp_all add: scale_PSelector_def)
    have z: "(last (cumprob P) * s = 0) = (last (cumprob P) = 0)" using s by simp
    show ?thesis unfolding getProb_def l la n1 n0 q z by (rule refl)
  qed
  have se: "select (scale_PSelector s P) x = select P x" for x
  proof -
    have "x * last (cumprob (scale_PSelector s P)) = x * last (cumprob P) * s"
      by (simp only: la mult.assoc)
    then have "select_scaled (scale_PSelector s P) (x * last (cumprob (scale_PSelector s P)))
               = select_scaled P (x * last (cumprob P))"
      by (simp only: select_scaled_scale [OF s])
    then show ?thesis
      by (simp only: select_def)
  qed
  have cm: "cumprob (scale_PSelector s P) = map (\<lambda>p. p * s) (cumprob P)"
    by (simp add: scale_PSelector_def)
  have gc: "getCumProb (scale_PSelector s P) = getCumProb P * s"
    using la by (simp only: getCumProb_def)
  from gp se cm gc show ?thesis by blast
qed

lemma scale_keeps_probabilities_witness:
  "(0::real) < 2
   \<and> getProb (scale_PSelector 2 (addProb 3 (addProb 1 PSelector0))) 1
       = getProb (addProb 3 (addProb 1 PSelector0)) 1
   \<and> getProb (scale_PSelector 2 (addProb 3 (addProb 1 PSelector0))) 1 = Inr (Some (3 / 4))
   \<and> select (scale_PSelector 2 (addProb 3 (addProb 1 PSelector0))) (1 / 2)
       = select (addProb 3 (addProb 1 PSelector0)) (1 / 2)
   \<and> cumprob (scale_PSelector 2 (addProb 3 (addProb 1 PSelector0))) = [0, 2, 8]"
proof -
  let ?P = "addProb 3 (addProb 1 PSelector0)"
  have cs: "cumprob ?P = [0, 1, 4]" by (simp add: addProb_def PSelector0_def)
  have ne: "cumprob ?P \<noteq> []" by (simp add: cs)
  have s: "(0::real) < 2" by simp
  have g: "getProb ?P 1 = Inr (Some (3 / 4))" by (simp add: getProb_def cs)
  note th = scale_keeps_probabilities [OF s ne]
  from th have a: "getProb (scale_PSelector 2 ?P) 1 = getProb ?P 1" by blast
  from th have b: "select (scale_PSelector 2 ?P) (1 / 2) = select ?P (1 / 2)" by blast
  from th cs have c: "cumprob (scale_PSelector 2 ?P) = [0, 2, 8]" by simp
  show ?thesis using s a b c g by (simp only: simp_thms)
qed

subsection \<open>Facts about setCutoff\<close>

lemma PSelector_of_snoc: "PSelector_of (ws @ [w]) = addProb w (PSelector_of ws)"
  by (simp add: PSelector_of_def)

lemma cumprob_PSelector_of_ne: "cumprob (PSelector_of ws) \<noteq> []"
  by (induction ws rule: rev_induct) (simp_all add: PSelector_of_snoc addProb_def PSelector_of_def PSelector0_def)

lemma length_cumprob_PSelector_of: "length (cumprob (PSelector_of ws)) = Suc (length ws)"
  by (induction ws rule: rev_induct) (simp_all add: PSelector_of_snoc addProb_def PSelector_of_def PSelector0_def)

lemma last_cumprob_PSelector_of: "last (cumprob (PSelector_of ws)) = sum_list ws"
  by (induction ws rule: rev_induct) (simp_all add: PSelector_of_snoc addProb_def PSelector_of_def PSelector0_def)

lemma cumprob_PSelector_of_nth:
  "n \<le> length ws \<Longrightarrow> cumprob (PSelector_of ws) ! n = sum_list (take n ws)"
proof (induction ws rule: rev_induct)
  case Nil
  then show ?case by (simp add: PSelector_of_def PSelector0_def)
next
  case (snoc w ws)
  show ?case
  proof (cases "n \<le> length ws")
    case True
    then show ?thesis
      using snoc.IH length_cumprob_PSelector_of [of ws]
      by (simp add: PSelector_of_snoc addProb_def nth_append)
  next
    case False
    with snoc.prems have "n = Suc (length ws)" by simp
    then show ?thesis
      using length_cumprob_PSelector_of [of ws] last_cumprob_PSelector_of [of ws]
      by (simp add: PSelector_of_snoc addProb_def nth_append)
  qed
qed

lemma PSelector_of_width:
  assumes "n < length ws"
  shows "cumprob (PSelector_of ws) ! (n + 1) - cumprob (PSelector_of ws) ! n = ws ! n"
proof -
  have "take (Suc n) ws = take n ws @ [ws ! n]" using assms by (simp add: take_Suc_conv_app_nth)
  then show ?thesis using assms by (simp add: cumprob_PSelector_of_nth)
qed

lemma PSelector_of_scale: "scale_PSelector s (PSelector_of ws) = PSelector_of (map (\<lambda>w. w * s) ws)"
proof (induction ws rule: rev_induct)
  case Nil
  then show ?case by (simp add: PSelector_of_def PSelector0_def scale_PSelector_def)
next
  case (snoc w ws)
  have "scale_PSelector s (addProb w P) = addProb (w * s) (scale_PSelector s P)"
    if "cumprob P \<noteq> []" for P
    using that by (simp add: scale_PSelector_def addProb_def last_map distrib_right)
  then show ?case using snoc cumprob_PSelector_of_ne [of ws]
    by (simp add: PSelector_of_snoc)
qed

lemma PSelector_of_inv: "\<forall>w\<in>set ws. 0 \<le> w \<Longrightarrow> PSelector_inv (PSelector_of ws)"
proof (induction ws rule: rev_induct)
  case Nil
  then show ?case by (simp add: PSelector_of_def PSelector_inv_PSelector0)
next
  case (snoc w ws)
  then show ?case by (simp add: PSelector_of_snoc PSelector_inv_addProb)
qed

lemma fold_plus_sum: "fold (\<lambda>t p. p + f t) ts (a::real) = a + sum_list (map f ts)"
  by (induction ts arbitrary: a) simp_all

lemma setCutoff_level_eq:
  "setCutoff_level n S =
     S \<lparr> levelDecays := (levelDecays S) [n := PSelector_of (outWeights S n)],
         lStart := addProb (startWeight S (tcut S) n) (lStart S) \<rparr>"
proof -
  have a: "fold (\<lambda>t P. addProb (Itotal (transitions S ! t)) P) (transOut S ! n) PSelector0
           = PSelector_of (outWeights S n)"
    by (simp add: PSelector_of_def outWeights_def fold_map comp_def)
  have b: "(if (if n + 1 = length (levels S) then 1 else 0 :: real) = 0
               \<and> lev_hl (levels S ! n) > tcut S \<and> transOut S ! n \<noteq> []
            then fold (\<lambda>t p. p + Itotal (transitions S ! t)) (transIn S ! n)
                   (if n + 1 = length (levels S) then 1 else 0)
            else (if n + 1 = length (levels S) then 1 else 0))
           = startWeight S (tcut S) n"
    by (simp add: startWeight_def inWeights_def fold_plus_sum)
  show ?thesis unfolding setCutoff_level_def Let_def a b by (rule refl)
qed

lemma append_drop_update:
  assumes "k < length xs" "length ys = k"
  shows "(ys @ drop k xs) [k := v] = ys @ v # drop (Suc k) xs"
proof -
  have "drop k xs = xs ! k # drop (Suc k) xs" using assms by (simp add: Cons_nth_drop_Suc)
  then show ?thesis using assms by (simp add: list_update_append)
qed

lemma setCutoff_fold:
  assumes "k \<le> length (levelDecays S)"
  shows "fold setCutoff_level [0..<k] (S \<lparr> tcut := t, lStart := PSelector0 \<rparr>) =
         S \<lparr> tcut := t,
             lStart := PSelector_of (map (startWeight S t) [0..<k]),
             levelDecays := map (\<lambda>n. PSelector_of (outWeights S n)) [0..<k]
                            @ drop k (levelDecays S) \<rparr>"
  using assms
proof (induction k)
  case 0
  then show ?case by (simp add: PSelector_of_def)
next
  case (Suc k)
  then have klt: "k < length (levelDecays S)" by simp
  have ow: "outWeights (S \<lparr> tcut := t, lStart := P, levelDecays := D \<rparr>) n = outWeights S n" for P D n
    by (simp add: outWeights_def)
  have sw: "startWeight (S \<lparr> tcut := t, lStart := P, levelDecays := D \<rparr>) t' n = startWeight S t' n" for P D n t'
    by (simp add: startWeight_def inWeights_def)
  have up: "(map f [0..<k] @ drop k (levelDecays S)) [k := v]
            = map f [0..<k] @ v # drop (Suc k) (levelDecays S)" for f :: "nat \<Rightarrow> PSelector" and v
    by (rule append_drop_update [OF klt]) simp
  have "fold setCutoff_level [0..<Suc k] (S \<lparr> tcut := t, lStart := PSelector0 \<rparr>)
        = setCutoff_level k (fold setCutoff_level [0..<k] (S \<lparr> tcut := t, lStart := PSelector0 \<rparr>))"
    by simp
  also have "\<dots> = setCutoff_level k (S \<lparr> tcut := t,
             lStart := PSelector_of (map (startWeight S t) [0..<k]),
             levelDecays := map (\<lambda>n. PSelector_of (outWeights S n)) [0..<k]
                            @ drop k (levelDecays S) \<rparr>)"
    using Suc.IH klt by simp
  also have "\<dots> = S \<lparr> tcut := t,
             lStart := PSelector_of (map (startWeight S t) [0..<Suc k]),
             levelDecays := map (\<lambda>n. PSelector_of (outWeights S n)) [0..<Suc k]
                            @ drop (Suc k) (levelDecays S) \<rparr>"
    by (simp add: setCutoff_level_eq ow sw up PSelector_of_snoc)
  finally show ?case .
qed

lemma setCutoff_eq:
  assumes "length (levelDecays S) = length (levels S)"
  shows "setCutoff t S =
         S \<lparr> tcut := t,
             lStart := PSelector_of (map (startWeight S t) [0..<length (levels S)]),
             levelDecays := map (\<lambda>n. PSelector_of (outWeights S n)) [0..<length (levels S)] \<rparr>"
  using setCutoff_fold [of "length (levels S)" S t] assms by (simp add: setCutoff_def)

lemma setCutoff_lStart_width:
  assumes len: "length (levelDecays S) = length (levels S)" and n: "n < length (levels S)"
  shows "cumprob (lStart (setCutoff t S)) ! (n + 1) - cumprob (lStart (setCutoff t S)) ! n
         = startWeight S t n"
    and "getN (lStart (setCutoff t S)) = length (levels S)"
proof -
  have l: "lStart (setCutoff t S) = PSelector_of (map (startWeight S t) [0..<length (levels S)])"
    by (simp add: setCutoff_eq [OF len])
  show "cumprob (lStart (setCutoff t S)) ! (n + 1) - cumprob (lStart (setCutoff t S)) ! n
         = startWeight S t n"
    unfolding l using PSelector_of_width [of n "map (startWeight S t) [0..<length (levels S)]"] n
    by simp
  show "getN (lStart (setCutoff t S)) = length (levels S)"
    unfolding l by (simp add: getN_def length_cumprob_PSelector_of)
qed

subsection \<open>Claims about setCutoff\<close>

text \<open>
  C4. After \<open>setCutoff(t)\<close> on a system with at least one level, the chain-start
  selector has one bin per level; the bin of the last level, which has the highest
  energy, has weight 1 whatever its half-life; the bin of any other level with no
  outgoing transition or with half-life not above \<open>t\<close> has weight 0; and the bin of any
  other level with an outgoing transition and half-life above \<open>t\<close> has as weight the
  sum of \<open>Itotal\<close> over the transitions into the level.
\<close>

theorem setCutoff_start_weights:
  assumes inv: "NucDecaySystem_inv S" and ne: "levels S \<noteq> []"
  shows "getN (lStart (setCutoff t S)) = length (levels S)
       \<and> (\<forall>m < length (levels S).
             lev_E (levels S ! m) \<le> lev_E (levels S ! (length (levels S) - 1)))
       \<and> cumprob (lStart (setCutoff t S)) ! (length (levels S) - 1 + 1)
           - cumprob (lStart (setCutoff t S)) ! (length (levels S) - 1) = 1
       \<and> (\<forall>n. n + 1 < length (levels S)
               \<and> (transOut S ! n = [] \<or> \<not> lev_hl (levels S ! n) > t) \<longrightarrow>
             cumprob (lStart (setCutoff t S)) ! (n + 1)
               - cumprob (lStart (setCutoff t S)) ! n = 0)
       \<and> (\<forall>n. n + 1 < length (levels S)
               \<and> transOut S ! n \<noteq> [] \<and> lev_hl (levels S ! n) > t \<longrightarrow>
             cumprob (lStart (setCutoff t S)) ! (n + 1)
               - cumprob (lStart (setCutoff t S)) ! n
             = sum_list (map (\<lambda>ti. Itotal (transitions S ! ti)) (transIn S ! n)))"
proof -
  let ?N = "length (levels S)"
  from inv have len: "length (levelDecays S) = ?N" and so: "sorted (map lev_E (levels S))"
    by (simp_all add: NucDecaySystem_inv_def)
  from ne have Npos: "?N - 1 < ?N" by simp
  have a: "getN (lStart (setCutoff t S)) = ?N"
    by (rule setCutoff_lStart_width(2) [OF len Npos])
  have b: "\<forall>m < ?N. lev_E (levels S ! m) \<le> lev_E (levels S ! (?N - 1))"
  proof (intro allI impI)
    fix m assume m: "m < ?N"
    then have "map lev_E (levels S) ! m \<le> map lev_E (levels S) ! (?N - 1)"
      using so by (intro sorted_nth_mono) simp_all
    then show "lev_E (levels S ! m) \<le> lev_E (levels S ! (?N - 1))" using m Npos by simp
  qed
  have c: "cumprob (lStart (setCutoff t S)) ! (?N - 1 + 1)
           - cumprob (lStart (setCutoff t S)) ! (?N - 1) = 1"
    using setCutoff_lStart_width(1) [OF len Npos, of t] ne by (simp add: startWeight_def)
  have d: "\<forall>n. n + 1 < ?N \<and> (transOut S ! n = [] \<or> \<not> lev_hl (levels S ! n) > t) \<longrightarrow>
             cumprob (lStart (setCutoff t S)) ! (n + 1)
               - cumprob (lStart (setCutoff t S)) ! n = 0"
  proof (intro allI impI)
    fix n assume n: "n + 1 < ?N \<and> (transOut S ! n = [] \<or> \<not> lev_hl (levels S ! n) > t)"
    then have "n < ?N" by simp
    from setCutoff_lStart_width(1) [OF len this, of t] n
    show "cumprob (lStart (setCutoff t S)) ! (n + 1)
               - cumprob (lStart (setCutoff t S)) ! n = 0"
      by (auto simp: startWeight_def)
  qed
  have e: "\<forall>n. n + 1 < ?N \<and> transOut S ! n \<noteq> [] \<and> lev_hl (levels S ! n) > t \<longrightarrow>
             cumprob (lStart (setCutoff t S)) ! (n + 1)
               - cumprob (lStart (setCutoff t S)) ! n
             = sum_list (map (\<lambda>ti. Itotal (transitions S ! ti)) (transIn S ! n))"
  proof (intro allI impI)
    fix n assume n: "n + 1 < ?N \<and> transOut S ! n \<noteq> [] \<and> lev_hl (levels S ! n) > t"
    then have "n < ?N" by simp
    from setCutoff_lStart_width(1) [OF len this, of t] n
    show "cumprob (lStart (setCutoff t S)) ! (n + 1)
               - cumprob (lStart (setCutoff t S)) ! n
             = sum_list (map (\<lambda>ti. Itotal (transitions S ! ti)) (transIn S ! n))"
      by (simp add: startWeight_def inWeights_def)
  qed
  from a b c d e show ?thesis by (intro conjI)
qed

subsection \<open>The invariant through construction\<close>


lemma bindE_Inr_iff: "bindE m f = Inr y \<longleftrightarrow> (\<exists>x. m = Inr x \<and> f x = Inr y)"
  by (cases m) (simp_all add: bindE_def)

lemma bindE_simps: "bindE (Inl e) f = Inl e" "bindE (Inr x) f = f x"
  by (simp_all add: bindE_def)

lemma vec_at_Inr_iff: "vec_at xs i = Inr x \<longleftrightarrow> i < length xs \<and> x = xs ! i"
  by (auto simp: vec_at_def)

lemma foldE_append: "foldE f (xs @ ys) s = bindE (foldE f xs s) (foldE f ys)"
proof (induction xs arbitrary: s)
  case Nil
  then show ?case by (simp add: bindE_simps)
next
  case (Cons x xs)
  then show ?case by (cases "f x s") (simp_all add: bindE_simps)
qed

lemma foldE_invariant:
  assumes "foldE f xs s = Inr s'" and "P s"
    and "\<And>x a b. x \<in> set xs \<Longrightarrow> P a \<Longrightarrow> f x a = Inr b \<Longrightarrow> P b"
  shows "P s'"
  using assms
proof (induction xs arbitrary: s)
  case Nil
  then show ?case by simp
next
  case (Cons x xs)
  from Cons.prems(1) obtain a where a: "f x s = Inr a" and r: "foldE f xs a = Inr s'"
    by (auto simp: bindE_Inr_iff)
  have "P a" by (rule Cons.prems(3) [of x s a]) (simp_all add: Cons.prems(2) a)
  show ?case
    by (rule Cons.IH [OF r \<open>P a\<close>]) (rule Cons.prems(3), simp_all)
qed

lemma getAtom_Inr:
  assumes that: "getAtom B z S = Inr S'"
  shows "\<exists>A. S' = S \<lparr> atoms := A \<rparr> \<and> A z \<noteq> None"
proof (cases "atoms S z")
  case None
  then show ?thesis using that by (auto simp: getAtom_def split: option.splits)
next
  case (Some a)
  then have "S' = S \<lparr> atoms := atoms S \<rparr> \<and> atoms S z \<noteq> None"
    using that by (simp add: getAtom_def)
  then show ?thesis by blast
qed

lemma inv_atoms [simp]: "NucDecaySystem_inv (S \<lparr> atoms := A \<rparr>) = NucDecaySystem_inv S"
  by (simp add: NucDecaySystem_inv_def outWeights_def inWeights_def)

text \<open>What a successful \<^verbatim>\<open>addTransition\<close> returns.\<close>

lemma addTransition_Inr:
  assumes ok: "addTransition B T S = Inr S'"
    and ln: "\<forall>i < length (levels S). lev_n (levels S ! i) = i"
    and l1: "length (transIn S) = length (levels S)"
    and l2: "length (transOut S) = length (levels S)"
    and l3: "length (levelDecays S) = length (levels S)"
  shows "tr_from T < length (levels S) \<and> tr_to T < length (levels S) \<and>
    (\<exists>A. S' = S \<lparr> atoms := A,
        transIn := (transIn S) [tr_to T := transIn S ! tr_to T @ [length (transitions S)]],
        transOut := (transOut S) [tr_from T := transOut S ! tr_from T @ [length (transitions S)]],
        levelDecays := (levelDecays S) [tr_from T := addProb (Itotal T) (levelDecays S ! tr_from T)],
        levels := ((levels S) [tr_from T := (levels S ! tr_from T)
                      \<lparr> fluxOut := fluxOut (levels S ! tr_from T) + Itotal T \<rparr>])
                  [tr_to T := (((levels S) [tr_from T := (levels S ! tr_from T)
                      \<lparr> fluxOut := fluxOut (levels S ! tr_from T) + Itotal T \<rparr>]) ! tr_to T)
                      \<lparr> fluxIn := fluxIn (((levels S) [tr_from T := (levels S ! tr_from T)
                      \<lparr> fluxOut := fluxOut (levels S ! tr_from T) + Itotal T \<rparr>]) ! tr_to T) + Itotal T \<rparr>],
        transitions := transitions S @ [T \<lparr> toAtom := Some (lev_Z (levels S ! tr_to T)) \<rparr>] \<rparr>
      \<and> A (lev_Z (levels S ! tr_to T)) \<noteq> None)"
proof -
  from ok obtain lto lfrom S1 where
    a: "vec_at (levels S) (tr_to T) = Inr lto" and b: "vec_at (levels S) (tr_from T) = Inr lfrom"
    and c: "getAtom B (lev_Z lto) S = Inr S1"
    unfolding addTransition_def by (auto simp: bindE_Inr_iff)
  from a b have t: "tr_to T < length (levels S)" and f: "tr_from T < length (levels S)"
    and lto: "lto = levels S ! tr_to T" and lfrom: "lfrom = levels S ! tr_from T"
    by (simp_all add: vec_at_Inr_iff)
  from getAtom_Inr [OF c] obtain A where S1: "S1 = S \<lparr> atoms := A \<rparr>" and A: "A (lev_Z lto) \<noteq> None"
    by blast
  have nt: "lev_n (levels S ! tr_to T) = tr_to T" and nf: "lev_n (levels S ! tr_from T) = tr_from T"
    using ln t f by simp_all
  from ok show ?thesis
    unfolding addTransition_def a b c bindE_simps
    using t f l1 l2 l3 A
    by (auto simp: S1 nt nf lto lfrom vec_at_def bindE_simps Let_def)
qed


lemma weights_append:
  assumes "\<forall>i \<in> set is. i < length ts"
  shows "map (\<lambda>ti. Itotal ((ts @ [T]) ! ti)) is = map (\<lambda>ti. Itotal (ts ! ti)) is"
  using assms by (simp add: nth_append)

lemma filter_upt_append:
  "filter (\<lambda>ti. g ((ts @ [T]) ! ti) = n) [0..<Suc (length ts)]
   = filter (\<lambda>ti. g (ts ! ti) = n) [0..<length ts] @ (if g T = n then [length ts] else [])"
proof -
  have "filter (\<lambda>ti. g ((ts @ [T]) ! ti) = n) [0..<length ts]
        = filter (\<lambda>ti. g (ts ! ti) = n) [0..<length ts]"
    by (rule filter_cong) (simp_all add: nth_append)
  then show ?thesis by simp
qed

lemma levels_update_nth:
  fixes L :: "NucLevel list"
  assumes "f < length L" "t < length L" "n < length L"
  shows "lev_n ((L [f := (L ! f) \<lparr> fluxOut := fluxOut (L ! f) + w \<rparr>])
           [t := ((L [f := (L ! f) \<lparr> fluxOut := fluxOut (L ! f) + w \<rparr>]) ! t)
              \<lparr> fluxIn := fluxIn ((L [f := (L ! f) \<lparr> fluxOut := fluxOut (L ! f) + w \<rparr>]) ! t) + w \<rparr>] ! n)
         = lev_n (L ! n)"
    "lev_E ((L [f := (L ! f) \<lparr> fluxOut := fluxOut (L ! f) + w \<rparr>])
           [t := ((L [f := (L ! f) \<lparr> fluxOut := fluxOut (L ! f) + w \<rparr>]) ! t)
              \<lparr> fluxIn := fluxIn ((L [f := (L ! f) \<lparr> fluxOut := fluxOut (L ! f) + w \<rparr>]) ! t) + w \<rparr>] ! n)
         = lev_E (L ! n)"
    "fluxOut ((L [f := (L ! f) \<lparr> fluxOut := fluxOut (L ! f) + w \<rparr>])
           [t := ((L [f := (L ! f) \<lparr> fluxOut := fluxOut (L ! f) + w \<rparr>]) ! t)
              \<lparr> fluxIn := fluxIn ((L [f := (L ! f) \<lparr> fluxOut := fluxOut (L ! f) + w \<rparr>]) ! t) + w \<rparr>] ! n)
         = fluxOut (L ! n) + (if n = f then w else 0)"
    "fluxIn ((L [f := (L ! f) \<lparr> fluxOut := fluxOut (L ! f) + w \<rparr>])
           [t := ((L [f := (L ! f) \<lparr> fluxOut := fluxOut (L ! f) + w \<rparr>]) ! t)
              \<lparr> fluxIn := fluxIn ((L [f := (L ! f) \<lparr> fluxOut := fluxOut (L ! f) + w \<rparr>]) ! t) + w \<rparr>] ! n)
         = fluxIn (L ! n) + (if n = t then w else 0)"
    "length ((L [f := (L ! f) \<lparr> fluxOut := fluxOut (L ! f) + w \<rparr>])
           [t := ((L [f := (L ! f) \<lparr> fluxOut := fluxOut (L ! f) + w \<rparr>]) ! t)
              \<lparr> fluxIn := fluxIn ((L [f := (L ! f) \<lparr> fluxOut := fluxOut (L ! f) + w \<rparr>]) ! t) + w \<rparr>])
         = length L"
  using assms by (simp_all add: nth_list_update)

lemma addTransition_inv:
  assumes ok: "addTransition B T S = Inr S'" and inv: "NucDecaySystem_inv S"
  shows "NucDecaySystem_inv S'"
proof -
  let ?N = "length (levels S)"
  let ?m = "length (transitions S)"
  let ?f = "tr_from T" and ?t = "tr_to T"
  let ?T1 = "T \<lparr> toAtom := Some (lev_Z (levels S ! tr_to T)) \<rparr>"
  let ?L1 = "(levels S) [?f := (levels S ! ?f) \<lparr> fluxOut := fluxOut (levels S ! ?f) + Itotal T \<rparr>]"
  let ?L2 = "?L1 [?t := (?L1 ! ?t) \<lparr> fluxIn := fluxIn (?L1 ! ?t) + Itotal T \<rparr>]"
  from inv have l1: "length (transIn S) = ?N" and l2: "length (transOut S) = ?N"
    and l3: "length (levelDecays S) = ?N"
    and ln: "\<forall>i < ?N. lev_n (levels S ! i) = i"
    and so: "sorted (map lev_E (levels S))"
    and tv: "\<forall>ti < ?m. tr_from (transitions S ! ti) < ?N \<and> tr_to (transitions S ! ti) < ?N"
    and to: "\<forall>n < ?N. transOut S ! n = filter (\<lambda>ti. tr_from (transitions S ! ti) = n) [0..<?m]"
    and ti: "\<forall>n < ?N. transIn S ! n = filter (\<lambda>ti. tr_to (transitions S ! ti) = n) [0..<?m]"
    and fo: "\<forall>n < ?N. fluxOut (levels S ! n) = sum_list (outWeights S n)"
    and fi: "\<forall>n < ?N. fluxIn (levels S ! n) = sum_list (inWeights S n)"
    by (simp_all add: NucDecaySystem_inv_def)
  from addTransition_Inr [OF ok ln l1 l2 l3] obtain A where
    f: "?f < ?N" and t: "?t < ?N" and
    S': "S' = S \<lparr> atoms := A,
        transIn := (transIn S) [?t := transIn S ! ?t @ [?m]],
        transOut := (transOut S) [?f := transOut S ! ?f @ [?m]],
        levelDecays := (levelDecays S) [?f := addProb (Itotal T) (levelDecays S ! ?f)],
        levels := ?L2,
        transitions := transitions S @ [?T1] \<rparr>"
    by blast
  have lv: "levels S' = ?L2" and tr: "transitions S' = transitions S @ [?T1]"
    and tI: "transIn S' = (transIn S) [?t := transIn S ! ?t @ [?m]]"
    and tO: "transOut S' = (transOut S) [?f := transOut S ! ?f @ [?m]]"
    and lD: "length (levelDecays S') = ?N"
    using l3 by (simp_all add: S')
  note L = levels_update_nth [OF f t, where w = "Itotal T"]
  have N': "length (levels S') = ?N" using lv L(5) [OF f] by simp
  have m': "length (transitions S') = Suc ?m" by (simp add: tr)
  have E: "map lev_E (levels S') = map lev_E (levels S)"
    by (rule nth_equalityI) (simp_all add: N' lv L(2))
  have a4: "\<forall>i < length (levels S'). lev_n (levels S' ! i) = i"
    using ln by (simp add: N' lv L(1))
  have a6: "\<forall>ti < length (transitions S').
         tr_from (transitions S' ! ti) < length (levels S')
       \<and> tr_to (transitions S' ! ti) < length (levels S')"
    using tv f t by (auto simp: N' tr nth_append less_Suc_eq)
  have out_lt: "\<forall>i \<in> set (transOut S ! n). i < ?m" if "n < ?N" for n
    using to that by simp
  have in_lt: "\<forall>i \<in> set (transIn S ! n). i < ?m" if "n < ?N" for n
    using ti that by simp
  have tOn: "transOut S' ! n = transOut S ! n @ (if ?f = n then [?m] else [])" if "n < ?N" for n
    using that l2 by (simp add: tO nth_list_update)
  have tIn: "transIn S' ! n = transIn S ! n @ (if ?t = n then [?m] else [])" if "n < ?N" for n
    using that l1 by (simp add: tI nth_list_update)
  have a7: "\<forall>n < length (levels S').
         transOut S' ! n = filter (\<lambda>ti. tr_from (transitions S' ! ti) = n) [0..<length (transitions S')]"
  proof (intro allI impI)
    fix n assume "n < length (levels S')"
    then have n: "n < ?N" by (simp add: N')
    have "filter (\<lambda>ti. tr_from ((transitions S @ [?T1]) ! ti) = n) [0..<Suc ?m]
          = filter (\<lambda>ti. tr_from (transitions S ! ti) = n) [0..<?m] @ (if ?f = n then [?m] else [])"
      using filter_upt_append [of tr_from "transitions S" ?T1 n] by simp
    then show "transOut S' ! n
        = filter (\<lambda>ti. tr_from (transitions S' ! ti) = n) [0..<length (transitions S')]"
      using to tOn [OF n] n by (simp add: tr)
  qed
  have a8: "\<forall>n < length (levels S').
         transIn S' ! n = filter (\<lambda>ti. tr_to (transitions S' ! ti) = n) [0..<length (transitions S')]"
  proof (intro allI impI)
    fix n assume "n < length (levels S')"
    then have n: "n < ?N" by (simp add: N')
    have "filter (\<lambda>ti. tr_to ((transitions S @ [?T1]) ! ti) = n) [0..<Suc ?m]
          = filter (\<lambda>ti. tr_to (transitions S ! ti) = n) [0..<?m] @ (if ?t = n then [?m] else [])"
      using filter_upt_append [of tr_to "transitions S" ?T1 n] by simp
    then show "transIn S' ! n
        = filter (\<lambda>ti. tr_to (transitions S' ! ti) = n) [0..<length (transitions S')]"
      using ti tIn [OF n] n by (simp add: tr)
  qed
  have ow: "outWeights S' n = outWeights S n @ (if ?f = n then [Itotal T] else [])" if "n < ?N" for n
    using that out_lt [OF that] by (simp add: outWeights_def tOn tr nth_append)
  have iw: "inWeights S' n = inWeights S n @ (if ?t = n then [Itotal T] else [])" if "n < ?N" for n
    using that in_lt [OF that] by (simp add: inWeights_def tIn tr nth_append)
  have a9: "\<forall>n < length (levels S'). fluxOut (levels S' ! n) = sum_list (outWeights S' n)"
    using fo by (auto simp: N' lv L(3) ow)
  have a10: "\<forall>n < length (levels S'). fluxIn (levels S' ! n) = sum_list (inWeights S' n)"
    using fi by (auto simp: N' lv L(4) iw)
  have a1: "length (transIn S') = length (levels S')" by (simp add: N' tI l1)
  have a2: "length (transOut S') = length (levels S')" by (simp add: N' tO l2)
  have a3: "length (levelDecays S') = length (levels S')" by (simp add: N' lD)
  have a5: "sorted (map lev_E (levels S'))" using so by (simp only: E)
  from a1 a2 a3 a4 a5 a6 a7 a8 a9 a10 show ?thesis
    unfolding NucDecaySystem_inv_def by (intro conjI)
qed

lemma scale_Transition_fields [simp]:
  "tr_from (scale_Transition s T) = tr_from T"
  "tr_to (scale_Transition s T) = tr_to T"
  "Itotal (scale_Transition s T) = Itotal T * s"
  "toAtom (scale_Transition s T) = toAtom T"
  "NDF (scale_Transition s T) = NDF T"
  by (simp_all add: scale_Transition_def scale_TransitionBase_def split: TransKind.splits)

lemma scale_NucLevel_fields [simp]:
  "lev_n (scale_NucLevel s l) = lev_n l" "lev_E (scale_NucLevel s l) = lev_E l"
  "lev_hl (scale_NucLevel s l) = lev_hl l" "lev_Z (scale_NucLevel s l) = lev_Z l"
  "lev_A (scale_NucLevel s l) = lev_A l" "lev_name (scale_NucLevel s l) = lev_name l"
  "fluxIn (scale_NucLevel s l) = fluxIn l * s" "fluxOut (scale_NucLevel s l) = fluxOut l * s"
  by (simp_all add: scale_NucLevel_def)

lemma sum_list_scaled: "sum_list (map (\<lambda>x. f x * s) xs) = sum_list (map f xs) * (s::real)"
  by (induction xs) (simp_all add: distrib_right)

text \<open>Scaling the transitions and the levels, as normalisation and \<open>scale\<close> do.\<close>

lemma scaled_inv:
  assumes inv: "NucDecaySystem_inv S"
    and lv: "levels S' = map (scale_NucLevel s) (levels S)"
    and tr: "transitions S' = map (scale_Transition s) (transitions S)"
    and tI: "transIn S' = transIn S" and tO: "transOut S' = transOut S"
    and lD: "length (levelDecays S') = length (levelDecays S)"
  shows "NucDecaySystem_inv S'"
    and "\<forall>n < length (levels S). outWeights S' n = map (\<lambda>w. w * s) (outWeights S n)"
    and "\<forall>n < length (levels S). inWeights S' n = map (\<lambda>w. w * s) (inWeights S n)"
proof -
  let ?N = "length (levels S)"
  let ?m = "length (transitions S)"
  from inv have l1: "length (transIn S) = ?N" and l2: "length (transOut S) = ?N"
    and l3: "length (levelDecays S) = ?N"
    and ln: "\<forall>i < ?N. lev_n (levels S ! i) = i"
    and so: "sorted (map lev_E (levels S))"
    and tv: "\<forall>ti < ?m. tr_from (transitions S ! ti) < ?N \<and> tr_to (transitions S ! ti) < ?N"
    and to: "\<forall>n < ?N. transOut S ! n = filter (\<lambda>ti. tr_from (transitions S ! ti) = n) [0..<?m]"
    and ti: "\<forall>n < ?N. transIn S ! n = filter (\<lambda>ti. tr_to (transitions S ! ti) = n) [0..<?m]"
    and fo: "\<forall>n < ?N. fluxOut (levels S ! n) = sum_list (outWeights S n)"
    and fi: "\<forall>n < ?N. fluxIn (levels S ! n) = sum_list (inWeights S n)"
    by (simp_all add: NucDecaySystem_inv_def)
  have N': "length (levels S') = ?N" and m': "length (transitions S') = ?m"
    by (simp_all add: lv tr)
  have E: "map lev_E (levels S') = map lev_E (levels S)" by (simp add: lv comp_def)
  have fo': "filter (\<lambda>ti. tr_from (transitions S' ! ti) = n) [0..<?m]
             = filter (\<lambda>ti. tr_from (transitions S ! ti) = n) [0..<?m]" for n
    by (rule filter_cong) (simp_all add: tr)
  have fi': "filter (\<lambda>ti. tr_to (transitions S' ! ti) = n) [0..<?m]
             = filter (\<lambda>ti. tr_to (transitions S ! ti) = n) [0..<?m]" for n
    by (rule filter_cong) (simp_all add: tr)
  show ow: "\<forall>n < ?N. outWeights S' n = map (\<lambda>w. w * s) (outWeights S n)"
    using to by (simp add: outWeights_def tO tr)
  show iw: "\<forall>n < ?N. inWeights S' n = map (\<lambda>w. w * s) (inWeights S n)"
    using ti by (simp add: inWeights_def tI tr)
  have a9: "\<forall>n < length (levels S'). fluxOut (levels S' ! n) = sum_list (outWeights S' n)"
    using fo ow sum_list_scaled [of "\<lambda>w. w" s] by (simp add: N' lv)
  have a10: "\<forall>n < length (levels S'). fluxIn (levels S' ! n) = sum_list (inWeights S' n)"
    using fi iw sum_list_scaled [of "\<lambda>w. w" s] by (simp add: N' lv)
  have a4: "\<forall>i < length (levels S'). lev_n (levels S' ! i) = i" using ln by (simp add: lv)
  have a6: "\<forall>ti < length (transitions S').
         tr_from (transitions S' ! ti) < length (levels S')
       \<and> tr_to (transitions S' ! ti) < length (levels S')"
    using tv by (simp add: N' tr)
  have a7: "\<forall>n < length (levels S').
         transOut S' ! n = filter (\<lambda>ti. tr_from (transitions S' ! ti) = n) [0..<length (transitions S')]"
    using to by (simp only: N' m' fo' tO)
  have a8: "\<forall>n < length (levels S').
         transIn S' ! n = filter (\<lambda>ti. tr_to (transitions S' ! ti) = n) [0..<length (transitions S')]"
    using ti by (simp only: N' m' fi' tI)
  have a1: "length (transIn S') = length (levels S')" by (simp add: N' tI l1)
  have a2: "length (transOut S') = length (levels S')" by (simp add: N' tO l2)
  have a3: "length (levelDecays S') = length (levels S')" by (simp add: N' lD l3)
  have a5: "sorted (map lev_E (levels S'))" using so by (simp only: E)
  from a1 a2 a3 a4 a5 a6 a7 a8 a9 a10 show "NucDecaySystem_inv S'"
    unfolding NucDecaySystem_inv_def by (intro conjI)
qed

lemma ctor_norm_inv:
  assumes "ctor_norm Q S = Inr S'" "NucDecaySystem_inv S"
  shows "NucDecaySystem_inv S'"
proof (cases "q_norm_groundstate Q")
  case False
  with assms show ?thesis by (simp add: ctor_norm_def)
next
  case True
  with assms(1) have S': "S' = S \<lparr> transitions := map (scale_Transition (1 / gsflux (levels S))) (transitions S),
                         levels := map (scale_NucLevel (1 / gsflux (levels S))) (levels S) \<rparr>"
    by (simp add: ctor_norm_def split: if_splits)
  show ?thesis
    by (rule scaled_inv(1) [OF assms(2), of _ "1 / gsflux (levels S)"]) (simp_all add: S')
qed

lemma setCutoff_inv:
  assumes inv: "NucDecaySystem_inv S"
  shows "NucDecaySystem_inv (setCutoff t S)" and "decays_fresh (setCutoff t S)"
proof -
  from inv have l3: "length (levelDecays S) = length (levels S)"
    by (simp add: NucDecaySystem_inv_def)
  note eq = setCutoff_eq [OF l3, of t]
  show "NucDecaySystem_inv (setCutoff t S)"
    using inv unfolding eq by (simp add: NucDecaySystem_inv_def outWeights_def inWeights_def)
  show "decays_fresh (setCutoff t S)"
    unfolding eq by (simp add: decays_fresh_def outWeights_def)
qed

lemma scale_inv:
  assumes inv: "NucDecaySystem_inv S" and fr: "decays_fresh S"
  shows "NucDecaySystem_inv (scale s S)" and "decays_fresh (scale s S)"
proof -
  from inv have l3: "length (levelDecays S) = length (levels S)"
    by (simp add: NucDecaySystem_inv_def)
  have ld: "levelDecays (scale s S) = map (scale_PSelector s) (levelDecays S)"
    using l3 by (simp add: scale_def)
  note sc = scaled_inv [OF inv, of "scale s S" s]
  show "NucDecaySystem_inv (scale s S)" by (rule sc(1)) (simp_all add: scale_def)
  have ow: "\<forall>n < length (levels S). outWeights (scale s S) n = map (\<lambda>w. w * s) (outWeights S n)"
    by (rule sc(2)) (simp_all add: scale_def)
  show "decays_fresh (scale s S)"
    using fr ow l3 unfolding decays_fresh_def
    by (simp add: ld PSelector_of_scale scale_def)
qed

lemma pre_inv_empty: "pre_inv NucDecaySystem_empty"
  by (simp add: pre_inv_def NucDecaySystem_empty_def)

lemma ctor_level_pre_inv:
  assumes "ctor_level l S = Inr S'" "pre_inv S"
  shows "pre_inv S'"
proof -
  from assms(1) obtain L where L: "NucLevel_new l = Inr L"
    and S': "S' = S \<lparr> levels := levels S @ [L], transIn := transIn S @ [[]],
                transOut := transOut S @ [[]], levelDecays := levelDecays S @ [PSelector0] \<rparr>"
    by (auto simp: ctor_level_def bindE_Inr_iff)
  from L have "fluxIn L = 0 \<and> fluxOut L = 0"
    by (auto simp: NucLevel_new_def split: if_splits)
  with assms(2) show ?thesis by (auto simp: pre_inv_def S')
qed

lemma ctor_sort_pre_inv: "pre_inv S \<Longrightarrow> pre_inv (ctor_sort S)"
  by (simp add: pre_inv_def ctor_sort_def)

lemma ctor_index_step:
  assumes ok: "ctor_index k S = Inr S'" and k: "k < length (levels S)"
    and pre: "pre_inv S" and ix: "levelIndex_upto k S"
  shows "pre_inv S'" "levelIndex_upto (Suc k) S'"
    "map lev_E (levels S') = map lev_E (levels S)"
    "map lev_name (levels S') = map lev_name (levels S)"
    "length (levels S') = length (levels S)"
proof -
  let ?nm = "lev_name (levels S ! k)"
  from ok have fresh: "levelIndex S ?nm = None"
    and S': "S' = S \<lparr> levels := (levels S) [k := (levels S ! k) \<lparr> lev_n := k \<rparr>],
                    levelIndex := (levelIndex S) (?nm \<mapsto> k) \<rparr>"
    by (auto simp: ctor_index_def split: if_splits)
  show len: "length (levels S') = length (levels S)" by (simp add: S')
  have upd: "levels S' ! i = (if i = k then (levels S ! k) \<lparr> lev_n := k \<rparr> else levels S ! i)"
    if "i < length (levels S)" for i
    using that by (simp add: S' nth_list_update)
  show "map lev_E (levels S') = map lev_E (levels S)"
    by (rule nth_equalityI) (simp_all add: len upd)
  show nm: "map lev_name (levels S') = map lev_name (levels S)"
    by (rule nth_equalityI) (simp_all add: len upd)
  have "\<forall>l \<in> set (levels S'). fluxIn l = 0 \<and> fluxOut l = 0"
  proof
    fix l assume "l \<in> set (levels S')"
    then have "l \<in> insert ((levels S ! k) \<lparr> lev_n := k \<rparr>) (set (levels S))"
      using set_update_subset_insert [of "levels S" k] by (auto simp: S')
    moreover have "levels S ! k \<in> set (levels S)" using k by simp
    ultimately show "fluxIn l = 0 \<and> fluxOut l = 0" using pre by (auto simp: pre_inv_def)
  qed
  with pre show "pre_inv S'" by (simp add: pre_inv_def S')
  from ix have a: "\<forall>i < k. lev_n (levels S ! i) = i \<and> levelIndex S (lev_name (levels S ! i)) = Some i"
    and b: "\<forall>s i. levelIndex S s = Some i \<longrightarrow> i < k \<and> lev_name (levels S ! i) = s"
    by (simp_all add: levelIndex_upto_def)
  have a': "\<forall>i < Suc k. lev_n (levels S' ! i) = i \<and> levelIndex S' (lev_name (levels S' ! i)) = Some i"
  proof (intro allI impI)
    fix i assume i: "i < Suc k"
    show "lev_n (levels S' ! i) = i \<and> levelIndex S' (lev_name (levels S' ! i)) = Some i"
    proof (cases "i = k")
      case True
      then show ?thesis using k by (simp add: S')
    next
      case False
      with i have ik: "i < k" by simp
      with a fresh have "lev_name (levels S ! i) \<noteq> ?nm" by auto
      then show ?thesis using a ik False by (simp add: S')
    qed
  qed
  have b': "\<forall>s i. levelIndex S' s = Some i \<longrightarrow> i < Suc k \<and> lev_name (levels S' ! i) = s"
  proof (intro allI impI)
    fix s i assume si: "levelIndex S' s = Some i"
    show "i < Suc k \<and> lev_name (levels S' ! i) = s"
    proof (cases "s = ?nm")
      case True
      with si have "i = k" by (simp add: S')
      then show ?thesis using True k by (simp add: S')
    next
      case False
      with si have "levelIndex S s = Some i" by (simp add: S')
      with b have "i < k \<and> lev_name (levels S ! i) = s" by blast
      then show ?thesis by (simp add: S')
    qed
  qed
  from a' b' show "levelIndex_upto (Suc k) S'" by (simp add: levelIndex_upto_def)
qed

lemma ctor_index_fold:
  assumes "foldE ctor_index [0..<k] S = Inr S'" "k \<le> length (levels S)"
    "pre_inv S" "levelIndex_upto 0 S"
  shows "pre_inv S' \<and> levelIndex_upto k S'
       \<and> map lev_E (levels S') = map lev_E (levels S)
       \<and> map lev_name (levels S') = map lev_name (levels S)
       \<and> length (levels S') = length (levels S)"
  using assms
proof (induction k arbitrary: S')
  case 0
  then show ?case by simp
next
  case (Suc k)
  from Suc.prems(1) obtain M where M: "foldE ctor_index [0..<k] S = Inr M"
    and st: "ctor_index k M = Inr S'"
    by (auto simp: foldE_append bindE_Inr_iff)
  from Suc.IH [OF M] Suc.prems have IH: "pre_inv M" "levelIndex_upto k M"
    "map lev_E (levels M) = map lev_E (levels S)"
    "map lev_name (levels M) = map lev_name (levels S)"
    "length (levels M) = length (levels S)"
    by simp_all
  have k: "k < length (levels M)" using Suc.prems(2) IH(5) by simp
  from ctor_index_step [OF st k IH(1,2)] IH(3,4,5) show ?case by simp
qed

lemma pre_inv_imp_inv:
  assumes pre: "pre_inv S" and so: "sorted (map lev_E (levels S))"
    and ix: "levelIndex_upto (length (levels S)) S"
  shows "ctor_inv S"
proof -
  from pre have tr: "transitions S = []"
    and l1: "length (transIn S) = length (levels S)"
    and l2: "length (transOut S) = length (levels S)"
    and l3: "length (levelDecays S) = length (levels S)"
    and e1: "\<forall>x \<in> set (transIn S). x = []" and e2: "\<forall>x \<in> set (transOut S). x = []"
    and fl: "\<forall>l \<in> set (levels S). fluxIn l = 0 \<and> fluxOut l = 0"
    by (simp_all add: pre_inv_def)
  have i1: "transIn S ! n = []" if "n < length (levels S)" for n using e1 l1 that by simp
  have o1: "transOut S ! n = []" if "n < length (levels S)" for n using e2 l2 that by simp
  have "NucDecaySystem_inv S"
    unfolding NucDecaySystem_inv_def
    using l1 l2 l3 so ix fl i1 o1
    by (simp add: tr outWeights_def inWeights_def levelIndex_upto_def)
  with ix show ?thesis by (simp add: ctor_inv_def)
qed

lemma ctor_levels_inv:
  assumes a: "foldE ctor_level recs NucDecaySystem_empty = Inr S1"
    and b: "foldE ctor_index [0..<length (levels S1)] (ctor_sort S1) = Inr S2"
  shows "ctor_inv S2"
proof -
  have p1: "pre_inv S1"
    by (rule foldE_invariant [where P = pre_inv, OF a pre_inv_empty]) (rule ctor_level_pre_inv)
  have li: "levelIndex S1 = (\<lambda>s. None)"
    by (rule foldE_invariant [where P = "\<lambda>S. levelIndex S = (\<lambda>s. None)", OF a])
       (auto simp: NucDecaySystem_empty_def ctor_level_def bindE_Inr_iff)
  have p2: "pre_inv (ctor_sort S1)" using p1 by (rule ctor_sort_pre_inv)
  have ix0: "levelIndex_upto 0 (ctor_sort S1)"
    using li by (simp add: levelIndex_upto_def ctor_sort_def)
  have len: "length (levels S1) \<le> length (levels (ctor_sort S1))" by (simp add: ctor_sort_def)
  from ctor_index_fold [OF b len p2 ix0]
  have r: "pre_inv S2" "levelIndex_upto (length (levels S1)) S2"
    "map lev_E (levels S2) = map lev_E (levels (ctor_sort S1))"
    "length (levels S2) = length (levels (ctor_sort S1))"
    by simp_all
  have so: "sorted (map lev_E (levels S2))"
    unfolding r(3) by (simp add: ctor_sort_def)
  have "length (levels S2) = length (levels S1)" using r(4) by (simp add: ctor_sort_def)
  with r(2) have "levelIndex_upto (length (levels S2)) S2" by simp
  from pre_inv_imp_inv [OF r(1) so this] show ?thesis .
qed

lemma levels_update_names:
  fixes L :: "NucLevel list"
  assumes "f < length L" "t < length L" "n < length L"
  shows "lev_name ((L [f := (L ! f) \<lparr> fluxOut := a \<rparr>])
           [t := ((L [f := (L ! f) \<lparr> fluxOut := a \<rparr>]) ! t) \<lparr> fluxIn := b \<rparr>] ! n)
         = lev_name (L ! n)"
  using assms by (simp add: nth_list_update)

lemma levelIndex_upto_cong:
  assumes "levelIndex_upto k S" "levelIndex S' = levelIndex S"
    "\<forall>i < k. lev_n (levels S' ! i) = lev_n (levels S ! i)
          \<and> lev_name (levels S' ! i) = lev_name (levels S ! i)"
  shows "levelIndex_upto k S'"
  using assms unfolding levelIndex_upto_def by auto

lemma addTransition_ctor_inv:
  assumes ok: "addTransition B T S = Inr S'" and inv: "ctor_inv S"
  shows "ctor_inv S'"
proof -
  from inv have ni: "NucDecaySystem_inv S" and ix: "levelIndex_upto (length (levels S)) S"
    by (simp_all add: ctor_inv_def)
  from ni have l1: "length (transIn S) = length (levels S)"
    and l2: "length (transOut S) = length (levels S)"
    and l3: "length (levelDecays S) = length (levels S)"
    and ln: "\<forall>i < length (levels S). lev_n (levels S ! i) = i"
    by (simp_all add: NucDecaySystem_inv_def)
  have ni': "NucDecaySystem_inv S'" by (rule addTransition_inv [OF ok ni])
  then have ln': "\<forall>i < length (levels S'). lev_n (levels S' ! i) = i"
    by (simp add: NucDecaySystem_inv_def)
  from addTransition_Inr [OF ok ln l1 l2 l3] obtain A where
    f: "tr_from T < length (levels S)" and t: "tr_to T < length (levels S)"
    and li: "levelIndex S' = levelIndex S"
    and lv: "levels S' = ((levels S) [tr_from T := (levels S ! tr_from T)
                      \<lparr> fluxOut := fluxOut (levels S ! tr_from T) + Itotal T \<rparr>])
                  [tr_to T := (((levels S) [tr_from T := (levels S ! tr_from T)
                      \<lparr> fluxOut := fluxOut (levels S ! tr_from T) + Itotal T \<rparr>]) ! tr_to T)
                      \<lparr> fluxIn := fluxIn (((levels S) [tr_from T := (levels S ! tr_from T)
                      \<lparr> fluxOut := fluxOut (levels S ! tr_from T) + Itotal T \<rparr>]) ! tr_to T) + Itotal T \<rparr>]"
    by auto
  have N': "length (levels S') = length (levels S)" by (simp add: lv)
  have nm: "\<forall>i < length (levels S). lev_name (levels S' ! i) = lev_name (levels S ! i)"
    unfolding lv using levels_update_names [OF f t] by simp
  have "levelIndex_upto (length (levels S)) S'"
    by (rule levelIndex_upto_cong [OF ix li]) (use nm ln ln' N' in simp)
  with ni' N' show ?thesis by (simp add: ctor_inv_def)
qed

lemma addTransition_length:
  assumes ok: "addTransition B T S = Inr S'" and inv: "ctor_inv S"
  shows "length (levels S') = length (levels S)"
proof -
  from inv have ni: "NucDecaySystem_inv S" by (simp add: ctor_inv_def)
  then have l1: "length (transIn S) = length (levels S)"
    and l2: "length (transOut S) = length (levels S)"
    and l3: "length (levelDecays S) = length (levels S)"
    and ln: "\<forall>i < length (levels S). lev_n (levels S ! i) = i"
    by (simp_all add: NucDecaySystem_inv_def)
  from addTransition_Inr [OF ok ln l1 l2 l3] show ?thesis by auto
qed

lemma ctor_inv_atoms [simp]: "ctor_inv (S \<lparr> atoms := A \<rparr>) = ctor_inv S"
  by (simp add: ctor_inv_def levelIndex_upto_def)

lemma ctor_gamma_inv:
  assumes "ctor_gamma ext g S = Inr S'" "ctor_inv S"
  shows "ctor_inv S'"
  using assms by (auto simp: ctor_gamma_def bindE_Inr_iff intro: addTransition_ctor_inv)

lemma ctor_beta_inv:
  assumes "ctor_beta ext g S = Inr S'" "ctor_inv S"
  shows "ctor_inv S'"
  using assms by (auto simp: ctor_beta_def bindE_Inr_iff intro: addTransition_ctor_inv)

lemma ctor_norm_ctor_inv:
  assumes ok: "ctor_norm Q S = Inr S'" and inv: "ctor_inv S"
  shows "ctor_inv S'"
proof -
  from inv have ni: "NucDecaySystem_inv S" and ix: "levelIndex_upto (length (levels S)) S"
    by (simp_all add: ctor_inv_def)
  have ni': "NucDecaySystem_inv S'" by (rule ctor_norm_inv [OF ok ni])
  have "levelIndex S' = levelIndex S \<and> length (levels S') = length (levels S)
      \<and> (\<forall>i < length (levels S). lev_n (levels S' ! i) = lev_n (levels S ! i)
          \<and> lev_name (levels S' ! i) = lev_name (levels S ! i))"
    using ok by (auto simp: ctor_norm_def split: if_splits)
  with ix have "levelIndex_upto (length (levels S')) S'"
    using levelIndex_upto_cong [of "length (levels S)" S S'] by simp
  with ni' show ?thesis by (simp add: ctor_inv_def)
qed

lemma ctor_ICEK_atoms:
  assumes "ctor_ICEK ext ti S = Inr S'"
  shows "\<exists>A. S' = S \<lparr> atoms := A \<rparr>"
  using assms by (auto simp: ctor_ICEK_def bindE_Inr_iff)

lemma ctor_auger_atoms:
  assumes "ctor_auger ext a S = Inr S'"
  shows "\<exists>A. S' = S \<lparr> atoms := A \<rparr>"
proof -
  from assms obtain S1 d d1 where g: "getAtom (BEL ext) (a_Z a) S = Inr S1"
    and S': "S' = S1 \<lparr> atoms := (atoms S1) (a_Z a \<mapsto> d1) \<rparr>"
    by (auto simp: ctor_auger_def bindE_Inr_iff split: if_splits)
  from getAtom_Inr [OF g] obtain A where "S1 = S \<lparr> atoms := A \<rparr>" by blast
  with S' have "S' = S \<lparr> atoms := A (a_Z a \<mapsto> d1) \<rparr>" by simp
  then show ?thesis by blast
qed

lemma ctor_ecapt_auto_inv:
  assumes "ctor_ecapt_auto ext f i S = Inr S'" "ctor_inv S"
  shows "ctor_inv S'"
  using assms
  by (auto simp: ctor_ecapt_auto_def bindE_Inr_iff split: if_splits intro: addTransition_ctor_inv)

lemma ctor_ecapt_inv:
  assumes ok: "ctor_ecapt ext ec S = Inr S'" and inv: "ctor_inv S"
  shows "ctor_inv S'"
proof (cases "ec_to ec")
  case None
  with ok obtain f where "foldE (ctor_ecapt_auto ext f) [0..<length (levels S)] S = Inr S'"
    by (auto simp: ctor_ecapt_def bindE_Inr_iff)
  then show ?thesis
    by (rule foldE_invariant [where P = ctor_inv]) (rule inv, rule ctor_ecapt_auto_inv)
next
  case (Some to)
  with ok inv show ?thesis
    by (auto simp: ctor_ecapt_def bindE_Inr_iff split: if_splits intro: addTransition_ctor_inv)
qed

lemma NucDecaySystem_new_inv:
  assumes "NucDecaySystem_new ext Q t = Inr S"
  shows "NucDecaySystem_inv S" and "decays_fresh S"
proof -
  from assms obtain S1 S2 S3 S4 S5 S6 S7 S8 where
    p1: "foldE ctor_level (q_level Q) NucDecaySystem_empty = Inr S1"
    and p2: "foldE ctor_index [0..<length (levels S1)] (ctor_sort S1) = Inr S2"
    and p3: "foldE (ctor_gamma ext) (q_gamma Q) S2 = Inr S3"
    and p4: "ctor_norm Q S3 = Inr S4"
    and p5: "foldE (ctor_ICEK ext) [0..<length (transitions S4)] S4 = Inr S5"
    and p6: "foldE (ctor_auger ext) (q_AugerK Q) S5 = Inr S6"
    and p7: "foldE (ctor_beta ext) (q_beta Q) S6 = Inr S7"
    and p8: "foldE (ctor_ecapt ext) (q_ecapt Q) S7 = Inr S8"
    and S: "S = setCutoff t S8"
    unfolding NucDecaySystem_new_def by (auto simp: bindE_Inr_iff)
  have i2: "ctor_inv S2" by (rule ctor_levels_inv [OF p1 p2])
  have i3: "ctor_inv S3"
    by (rule foldE_invariant [where P = ctor_inv, OF p3 i2]) (rule ctor_gamma_inv)
  have i4: "ctor_inv S4" by (rule ctor_norm_ctor_inv [OF p4 i3])
  have i5: "ctor_inv S5"
    by (rule foldE_invariant [where P = ctor_inv, OF p5 i4]) (auto dest: ctor_ICEK_atoms)
  have i6: "ctor_inv S6"
    by (rule foldE_invariant [where P = ctor_inv, OF p6 i5]) (auto dest: ctor_auger_atoms)
  have i7: "ctor_inv S7"
    by (rule foldE_invariant [where P = ctor_inv, OF p7 i6]) (rule ctor_beta_inv)
  have i8: "ctor_inv S8"
    by (rule foldE_invariant [where P = ctor_inv, OF p8 i7]) (rule ctor_ecapt_inv)
  then have "NucDecaySystem_inv S8" by (simp add: ctor_inv_def)
  from setCutoff_inv [OF this, of t] show "NucDecaySystem_inv S" and "decays_fresh S"
    by (simp_all add: S)
qed

lemma constructed_inv:
  assumes "constructed ext S"
  shows "NucDecaySystem_inv S \<and> decays_fresh S"
  using assms
proof (induction rule: constructed.induct)
  case (constructed_new Q t S)
  then show ?case using NucDecaySystem_new_inv by blast
next
  case (constructed_setCutoff S t)
  then show ?case using setCutoff_inv by blast
next
  case (constructed_scale S s)
  then show ?case using scale_inv by blast
qed

subsection \<open>The test system\<close>


lemmas ctor_defs = NucDecaySystem_new_def bindE_def ctor_level_def NucLevel_new_def
     NucDecaySystem_empty_def ctor_sort_def ctor_index_def ctor_gamma_def levIndex_def vec_at_def
     addTransition_def getAtom_def ConversionGamma_new_def ctor_norm_def gsflux_def
     scale_Transition_def scale_TransitionBase_def scale_NucLevel_def ctor_ICEK_def deref_toAtom_def
     PSelector0_def addProb_def scale_PSelector_def getCumProb_def DecayAtom_new_def Let_def
     setCutoff_def setCutoff_level_def

lemma chain3_fields:
  "levels chain3 =
     [\<lparr> lev_name = ''1.1.0'', lev_A = 1, lev_Z = 1, lev_n = 0, lev_E = 0, lev_hl = DBL_MAX,
        lev_jpi = [], fluxIn = 1, fluxOut = 0 \<rparr>,
      \<lparr> lev_name = ''1.1.1'', lev_A = 1, lev_Z = 1, lev_n = 1, lev_E = 1, lev_hl = 5,
        lev_jpi = [], fluxIn = 1, fluxOut = 1 \<rparr>,
      \<lparr> lev_name = ''1.1.2'', lev_A = 1, lev_Z = 1, lev_n = 2, lev_E = 2, lev_hl = 0,
        lev_jpi = [], fluxIn = 0, fluxOut = 1 \<rparr>]"
  "transitions chain3 =
     [\<lparr> tr_from = 2, tr_to = 1, Itotal = 1, toAtom = Some 1, NDF = 3,
        kind = ConversionGamma 1 1 \<lparr> cumprob = [0, 1] \<rparr> [] [] (- 1) (- 1) \<rparr>,
      \<lparr> tr_from = 1, tr_to = 0, Itotal = 1, toAtom = Some 1, NDF = 3,
        kind = ConversionGamma 1 1 \<lparr> cumprob = [0, 1] \<rparr> [] [] (- 1) (- 1) \<rparr>]"
  "transIn chain3 = [[1], [0], []]"
  "transOut chain3 = [[], [1], [0]]"
  "levelDecays chain3 = [\<lparr> cumprob = [0] \<rparr>, \<lparr> cumprob = [0, 1] \<rparr>, \<lparr> cumprob = [0, 1] \<rparr>]"
  "lStart chain3 = \<lparr> cumprob = [0, 0, 0, 1] \<rparr>"
  "tcut chain3 = 10"
  "atoms chain3 1 = Some \<lparr> BET = \<lparr> bet_Z = 1, getSubshellBinding = (\<lambda>s ss. 0) \<rparr>, Eauger = 0,
       Iauger = 0, Ikxr = 0, ICEK = 0, IMissing = 0, pAuger = 0 \<rparr>"
  "NucDecaySystem_new chain3_ext chain3_file 10 = Inr chain3"
  by (simp_all add: chain3_def chain3_ext_def chain3_file_def ctor_defs upt_rec)

lemma chain3_constructed: "constructed chain3_ext chain3"
  by (rule constructed_new) (rule chain3_fields(9))

subsection \<open>Claims about constructed systems\<close>

lemma inv_flux_balance:
  assumes inv: "NucDecaySystem_inv S" and fr: "decays_fresh S" and n: "n < length (levels S)"
  shows "flux_balance S n"
proof -
  from inv n have "fluxOut (levels S ! n) = sum_list (outWeights S n)"
    by (simp add: NucDecaySystem_inv_def)
  moreover from fr n have "levelDecays S ! n = PSelector_of (outWeights S n)"
    by (simp add: decays_fresh_def)
  ultimately show ?thesis
    by (simp add: flux_balance_def getCumProb_def last_cumprob_PSelector_of outWeights_def)
qed

lemma setCutoff_levels [simp]: "levels (setCutoff t S) = levels S"
proof -
  have "levels (fold setCutoff_level ns S') = levels S'" for ns S'
    by (induction ns arbitrary: S') (simp_all add: setCutoff_level_def Let_def)
  then show ?thesis by (simp add: setCutoff_def)
qed

lemma scale_levels_length [simp]: "length (levels (scale s S)) = length (levels S)"
  by (simp add: scale_def)

text \<open>
  C4, evaluated: in the test system with cutoff 1 the middle level (half-life 5, one
  transition in, one out) gets its influx 1 as start weight, the top level 1, the
  ground level 0.
\<close>

theorem setCutoff_start_weights_witness:
  "NucDecaySystem_inv chain3 \<and> levels chain3 \<noteq> []
   \<and> getN (lStart (setCutoff 1 chain3)) = length (levels chain3)
   \<and> cumprob (lStart (setCutoff 1 chain3)) ! (length (levels chain3) - 1 + 1)
       - cumprob (lStart (setCutoff 1 chain3)) ! (length (levels chain3) - 1) = 1
   \<and> cumprob (lStart (setCutoff 1 chain3)) = [0, 0, 1, 2]"
proof -
  have inv: "NucDecaySystem_inv chain3" using constructed_inv [OF chain3_constructed] by simp
  have ne: "levels chain3 \<noteq> []" by (simp add: chain3_fields)
  have ev: "cumprob (lStart (setCutoff 1 chain3)) = [0, 0, 1, 2]"
    by (simp add: setCutoff_def setCutoff_level_def chain3_fields Let_def upt_rec
        PSelector0_def addProb_def)
  from setCutoff_start_weights [OF inv ne, of 1]
  have a: "getN (lStart (setCutoff 1 chain3)) = length (levels chain3)"
    and b: "cumprob (lStart (setCutoff 1 chain3)) ! (length (levels chain3) - 1 + 1)
       - cumprob (lStart (setCutoff 1 chain3)) ! (length (levels chain3) - 1) = 1"
    by blast+
  from inv ne a b ev show ?thesis by (intro conjI)
qed

text \<open>
  C6. In every constructed system (the constructor's result, with ground-state
  normalisation when requested and its final \<open>setCutoff\<close>, and whatever further calls
  of \<open>setCutoff\<close> and \<open>scale\<close> make of it), for every level \<open>n\<close> the sum of
  \<open>Itotal\<close> over \<open>transOut[n]\<close> equals \<open>levels[n].fluxOut\<close> and equals the total
  cumulative weight of \<open>levelDecays[n]\<close>; the same holds after one more \<open>setCutoff\<close>
  or \<open>scale\<close>.
\<close>

theorem constructed_flux_balance:
  assumes c: "constructed ext S" and n: "n < length (levels S)"
  shows "flux_balance S n \<and> flux_balance (setCutoff t S) n \<and> flux_balance (scale s S) n"
proof -
  have "flux_balance S' n" if "constructed ext S'" "length (levels S') = length (levels S)" for S'
    using constructed_inv [OF that(1)] n that(2) by (simp add: inv_flux_balance)
  from this [of S] this [of "setCutoff t S"] this [of "scale s S"] c
  show ?thesis by (simp add: constructed_setCutoff constructed_scale)
qed

theorem constructed_flux_balance_witness:
  "constructed chain3_ext chain3 \<and> (1::nat) < length (levels chain3)
   \<and> flux_balance chain3 1 \<and> flux_balance (setCutoff 1 chain3) 1 \<and> flux_balance (scale 2 chain3) 1
   \<and> fluxOut (levels chain3 ! 1) = 1 \<and> getCumProb (levelDecays chain3 ! 1) = 1
   \<and> fluxOut (levels (scale 2 chain3) ! 1) = 2"
proof -
  have n: "(1::nat) < length (levels chain3)" by (simp add: chain3_fields)
  have ev: "fluxOut (levels chain3 ! 1) = 1" "getCumProb (levelDecays chain3 ! 1) = 1"
    "fluxOut (levels (scale 2 chain3) ! 1) = 2"
    by (simp_all add: chain3_fields getCumProb_def scale_def scale_NucLevel_def)
  from constructed_flux_balance [OF chain3_constructed n, of 1 2] chain3_constructed n ev
  show ?thesis by (intro conjI) simp_all
qed

text \<open>
  C9. On a constructed system \<open>setCutoff(t)\<close> changes the cutoff \<open>tcut\<close> and the
  chain-start selector \<open>lStart\<close> only: the levels, the name index, the atoms, the
  transitions, \<open>transIn\<close>, \<open>transOut\<close> and every selector of \<open>levelDecays\<close> are what
  they were.
\<close>

theorem setCutoff_frame:
  assumes c: "constructed ext S"
  shows "levels (setCutoff t S) = levels S
       \<and> levelIndex (setCutoff t S) = levelIndex S
       \<and> atoms (setCutoff t S) = atoms S
       \<and> transitions (setCutoff t S) = transitions S
       \<and> transIn (setCutoff t S) = transIn S
       \<and> transOut (setCutoff t S) = transOut S
       \<and> levelDecays (setCutoff t S) = levelDecays S
       \<and> tcut (setCutoff t S) = t"
proof -
  from constructed_inv [OF c] have inv: "NucDecaySystem_inv S" and fr: "decays_fresh S"
    by simp_all
  from inv have l3: "length (levelDecays S) = length (levels S)"
    by (simp add: NucDecaySystem_inv_def)
  have ld: "map (\<lambda>n. PSelector_of (outWeights S n)) [0..<length (levels S)] = levelDecays S"
    by (rule nth_equalityI) (use fr l3 in \<open>simp_all add: decays_fresh_def\<close>)
  show ?thesis unfolding setCutoff_eq [OF l3] by (simp add: ld)
qed

theorem setCutoff_frame_witness:
  "constructed chain3_ext chain3
   \<and> levels (setCutoff 1 chain3) = levels chain3
   \<and> transitions (setCutoff 1 chain3) = transitions chain3
   \<and> transIn (setCutoff 1 chain3) = transIn chain3
   \<and> transOut (setCutoff 1 chain3) = transOut chain3
   \<and> levelDecays (setCutoff 1 chain3) = levelDecays chain3
   \<and> tcut (setCutoff 1 chain3) = 1 \<and> tcut chain3 = 10
   \<and> lStart (setCutoff 1 chain3) = \<lparr> cumprob = [0, 0, 1, 2] \<rparr>
   \<and> lStart chain3 = \<lparr> cumprob = [0, 0, 0, 1] \<rparr>"
proof -
  have ev: "lStart (setCutoff 1 chain3) = \<lparr> cumprob = [0, 0, 1, 2] \<rparr>"
    by (simp add: setCutoff_def setCutoff_level_def chain3_fields Let_def upt_rec
        PSelector0_def addProb_def)
  from setCutoff_frame [OF chain3_constructed, of 1] chain3_constructed ev chain3_fields(6,7)
  show ?thesis by (intro conjI) simp_all
qed

subsection \<open>Facts about chain generation\<close>


lemma graph_eq_refl [simp]: "graph_eq S S"
  by (simp add: graph_eq_def)

lemma graph_eq_trans: "graph_eq S S' \<Longrightarrow> graph_eq S' S'' \<Longrightarrow> graph_eq S S''"
  by (simp add: graph_eq_def)

lemma graph_eq_atoms [simp]: "graph_eq S (S' \<lparr> atoms := A \<rparr>) = graph_eq S S'"
  by (simp add: graph_eq_def)

lemma graph_eq_kind:
  assumes "ti < length (transitions S)"
  shows "graph_eq S (S \<lparr> transitions := (transitions S) [ti := (transitions S ! ti) \<lparr> kind := K \<rparr>] \<rparr>)"
  using assms by (simp add: graph_eq_def nth_list_update)

lemma downward_graph_eq: "graph_eq S S' \<Longrightarrow> downward S \<Longrightarrow> downward S'"
  unfolding graph_eq_def downward_def by simp

lemma inv_downward:
  assumes inv: "NucDecaySystem_inv S" and dec: "decreasing S"
  shows "downward S"
proof -
  let ?N = "length (levels S)"
  from inv have l2: "length (transOut S) = ?N"
    and ln: "\<forall>i < ?N. lev_n (levels S ! i) = i"
    and so: "sorted (map lev_E (levels S))"
    and tv: "\<forall>ti < length (transitions S).
               tr_from (transitions S ! ti) < ?N \<and> tr_to (transitions S ! ti) < ?N"
    and to: "\<forall>n < ?N. transOut S ! n
               = filter (\<lambda>ti. tr_from (transitions S ! ti) = n) [0..<length (transitions S)]"
    by (simp_all add: NucDecaySystem_inv_def)
  have "ti < length (transitions S) \<and> tr_to (transitions S ! ti) < ?N
        \<and> lev_n (levels S ! tr_to (transitions S ! ti)) < n"
    if n: "n < ?N" and ti: "ti \<in> set (transOut S ! n)" for n ti
  proof -
    from to n ti have tl: "ti < length (transitions S)" and fr: "tr_from (transitions S ! ti) = n"
      by simp_all
    let ?t = "tr_to (transitions S ! ti)"
    from tv tl have t: "?t < ?N" by simp
    from dec tl have "lev_E (levels S ! ?t) < lev_E (levels S ! tr_from (transitions S ! ti))"
      unfolding decreasing_def by blast
    then have E: "lev_E (levels S ! ?t) < lev_E (levels S ! n)" by (simp only: fr)
    have "?t < n"
    proof (rule ccontr)
      assume "\<not> ?t < n"
      then have "n \<le> ?t" by simp
      then have "map lev_E (levels S) ! n \<le> map lev_E (levels S) ! ?t"
        using so t by (intro sorted_nth_mono) simp_all
      with E t n show False by simp
    qed
    with ln t tl show ?thesis by simp
  qed
  with l2 show ?thesis by (simp add: downward_def)
qed

lemma select_rnd_cursor:
  assumes "select_rnd P r g = Inr res"
  shows "map_option snd (fst (snd res)) = map_option snd r"
  using assms by (auto simp: select_rnd_def split: option.splits sum.splits)

lemma run_emit_Inr:
  assumes ok: "run_emit ti T sh ssh r g st = Inr st'" and ti: "ti < length (transitions (sys st))"
    and T: "T = transitions (sys st) ! ti"
  shows "graph_eq (sys st) (sys st') \<and> rnd_ptr st' = r"
proof -
  from ok obtain eg ig shs sshs un s1 s2 where k: "kind T = ConversionGamma eg ig shs sshs un s1 s2"
    by (cases "kind T") (simp_all add: run_emit_def)
  from ok obtain evt where
    "st' = st \<lparr> sys := (sys st) \<lparr> transitions := (transitions (sys st))
                  [ti := T \<lparr> kind := ConversionGamma eg ig shs sshs un sh ssh \<rparr>] \<rparr>,
               out_v := out_v st @ [fst (randp evt r g)], rnd_ptr := r,
               gRandom := snd (randp evt r g) \<rparr>"
    unfolding run_emit_def k by (auto simp: bindE_Inr_iff Let_def)
  then show ?thesis using graph_eq_kind [OF ti] T by simp
qed

lemma run_Inr:
  assumes ok: "run ti st = Inr st'"
  shows "ti < length (transitions (sys st)) \<and> graph_eq (sys st) (sys st')
       \<and> map_option snd (rnd_ptr st') = map_option snd (rnd_ptr st)"
proof -
  let ?T = "transitions (sys st) ! ti"
  from ok have ti: "ti < length (transitions (sys st))"
    and body: "(case kind ?T of
         ConversionGamma eg ig shs sshs un s1 s2 \<Rightarrow>
           bindE (select_rnd shs (rnd_ptr st) (gRandom st)) (\<lambda>sel.
             if int (fst sel) < int (length sshs)
             then bindE (select_rnd (sshs ! fst sel) (fst (snd sel)) (snd (snd sel))) (\<lambda>sel2.
                    run_emit ti ?T (int (fst sel)) (int (fst sel2))
                      (fst (snd sel2)) (snd (snd sel2)) st)
             else run_emit ti ?T (- 1) (- 1) (fst (snd sel)) (snd (snd sel)) st)
       | BetaDecayTrans pstrn q gr \<Rightarrow>
           (let ep = randp \<lparr> evt_E = 0, evt_d = (if pstrn then D_POSITRON else D_ELECTRON),
                            evt_p = (0, 0, 0) \<rparr> (rnd_ptr st) (gRandom st);
                en = (case rnd_ptr st of
                        Some b \<Rightarrow> q (fst b (snd b + 2))
                      | None \<Rightarrow> gr (fst (Uniform01 (snd ep))));
                g2 = (case rnd_ptr st of
                        Some b \<Rightarrow> snd ep
                      | None \<Rightarrow> snd (Uniform01 (snd ep)))
            in Inr (st \<lparr> out_v := out_v st @ [(fst ep) \<lparr> evt_E := en \<rparr>], gRandom := g2 \<rparr>))
       | ECapture k \<Rightarrow>
           bindE (deref_toAtom (sys st) ?T) (\<lambda>a.
             let u = fst (Uniform01 (gRandom st));
                 T1 = ?T \<lparr> kind := ECapture (u < IMissing a) \<rparr>
             in Inr (st \<lparr> sys := (sys st) \<lparr> transitions := (transitions (sys st)) [ti := T1] \<rparr>,
                          gRandom := snd (Uniform01 (gRandom st)) \<rparr>))) = Inr st'"
    unfolding run_def by (auto simp: bindE_Inr_iff vec_at_Inr_iff)
  show ?thesis
  proof (cases "kind ?T")
    case (ConversionGamma eg ig shs sshs un s1 s2)
    from body obtain sel where s1: "select_rnd shs (rnd_ptr st) (gRandom st) = Inr sel"
      and rest: "(if int (fst sel) < int (length sshs)
             then bindE (select_rnd (sshs ! fst sel) (fst (snd sel)) (snd (snd sel))) (\<lambda>sel2.
                    run_emit ti ?T (int (fst sel)) (int (fst sel2))
                      (fst (snd sel2)) (snd (snd sel2)) st)
             else run_emit ti ?T (- 1) (- 1) (fst (snd sel)) (snd (snd sel)) st) = Inr st'"
      unfolding ConversionGamma by (auto simp: bindE_Inr_iff)
    note c1 = select_rnd_cursor [OF s1]
    show ?thesis
    proof (cases "int (fst sel) < int (length sshs)")
      case True
      with rest obtain sel2 where
        s2: "select_rnd (sshs ! fst sel) (fst (snd sel)) (snd (snd sel)) = Inr sel2"
        and e: "run_emit ti ?T (int (fst sel)) (int (fst sel2)) (fst (snd sel2)) (snd (snd sel2)) st
                = Inr st'"
        by (auto simp: bindE_Inr_iff)
      from run_emit_Inr [OF e ti refl] select_rnd_cursor [OF s2] c1 ti show ?thesis by simp
    next
      case False
      with rest have e: "run_emit ti ?T (- 1) (- 1) (fst (snd sel)) (snd (snd sel)) st = Inr st'"
        by simp
      from run_emit_Inr [OF e ti refl] c1 ti show ?thesis by simp
    qed
  next
    case (BetaDecayTrans pstrn q gr)
    with body ti show ?thesis by (auto simp: Let_def)
  next
    case (ECapture k)
    with body ti show ?thesis
      using graph_eq_kind [OF ti] by (auto simp: bindE_Inr_iff Let_def)
  qed
qed

lemma genAuger_fields [simp]: "sys (genAuger a st) = sys st" "rnd_ptr (genAuger a st) = rnd_ptr st"
  by (simp_all add: genAuger_def Let_def)

lemma genAuger_loop_Inr:
  assumes "genAuger_loop k B z st = Inr st'"
  shows "graph_eq (sys st) (sys st') \<and> rnd_ptr st' = rnd_ptr st"
  using assms
proof (induction k arbitrary: st)
  case 0
  then show ?case by simp
next
  case (Suc k)
  from Suc.prems obtain S1 a where g: "getAtom B z (sys st) = Inr S1"
    and r: "genAuger_loop k B z (genAuger a (st \<lparr> sys := S1 \<rparr>)) = Inr st'"
    by (auto simp: bindE_Inr_iff)
  from getAtom_Inr [OF g] obtain A where S1: "S1 = (sys st) \<lparr> atoms := A \<rparr>" by blast
  from Suc.IH [OF r] show ?case by (simp add: S1 graph_eq_def)
qed

text \<open>What a successful round of lines 449--454 does to the state.\<close>

lemma fire_Inr:
  assumes ok: "fire B n st = Inr res"
  shows "\<exists>i ti. n < length (transOut (sys st)) \<and> n < length (levelDecays (sys st))
        \<and> i < length (transOut (sys st) ! n) \<and> ti = transOut (sys st) ! n ! i
        \<and> ti < length (transitions (sys st))
        \<and> tr_to (transitions (sys st) ! ti) < length (levels (sys st))
        \<and> fst res = lev_n (levels (sys st) ! tr_to (transitions (sys st) ! ti))
        \<and> graph_eq (sys st) (sys (snd res))
        \<and> map_option snd (rnd_ptr (snd res))
            = map_option (\<lambda>p. p + NDF (transitions (sys st) ! ti)) (map_option snd (rnd_ptr st))"
proof -
  from ok obtain ld sel tout ti st1 T lto st2 where
    a: "vec_at (levelDecays (sys st)) n = Inr ld"
    and b: "select_rnd ld (rnd_ptr st) (gRandom st) = Inr sel"
    and c: "vec_at (transOut (sys st)) n = Inr tout"
    and d: "vec_at tout (fst sel) = Inr ti"
    and e: "run ti (st \<lparr> rnd_ptr := fst (snd sel), gRandom := snd (snd sel) \<rparr>) = Inr st1"
    and f: "vec_at (transitions (sys st1)) ti = Inr T"
    and g: "vec_at (levels (sys st1)) (tr_to T) = Inr lto"
    and h: "genAuger_loop (nVacant T 0) B (lev_Z lto)
              (st1 \<lparr> rnd_ptr := map_option (\<lambda>b. (fst b, snd b + NDF T)) (rnd_ptr st1) \<rparr>) = Inr st2"
    and r: "res = (lev_n lto, st2)"
    unfolding fire_def by (auto simp: bindE_Inr_iff)
  from run_Inr [OF e] have ti: "ti < length (transitions (sys st))"
    and ge1: "graph_eq (sys st) (sys st1)"
    and cur1: "map_option snd (rnd_ptr st1) = map_option snd (fst (snd sel))"
    by simp_all
  from genAuger_loop_Inr [OF h] have ge2: "graph_eq (sys st1) (sys st2)"
    and cur2: "rnd_ptr st2 = map_option (\<lambda>b. (fst b, snd b + NDF T)) (rnd_ptr st1)"
    by simp_all
  from ge1 ti f have T: "tr_to T = tr_to (transitions (sys st) ! ti)"
    "NDF T = NDF (transitions (sys st) ! ti)"
    by (simp_all add: graph_eq_def vec_at_Inr_iff)
  from ge1 g have lto: "tr_to T < length (levels (sys st))" "lto = levels (sys st) ! tr_to T"
    by (simp_all add: graph_eq_def vec_at_Inr_iff)
  have cur: "map_option snd (rnd_ptr st2)
        = map_option (\<lambda>p. p + NDF (transitions (sys st) ! ti)) (map_option snd (rnd_ptr st))"
    using cur1 select_rnd_cursor [OF b] unfolding cur2 T(2) [symmetric]
    by (cases "rnd_ptr st1"; cases "rnd_ptr st"; cases "fst (snd sel)") auto
  from a c d have "n < length (transOut (sys st))" "n < length (levelDecays (sys st))"
    "fst sel < length (transOut (sys st) ! n)" "ti = transOut (sys st) ! n ! fst sel"
    by (simp_all add: vec_at_Inr_iff)
  with ti lto T r graph_eq_trans [OF ge1 ge2] cur show ?thesis
    by (intro exI [of _ "fst sel"] exI [of _ ti]) simp
qed

lemma genDecayChain_Suc:
  "genDecayChain (Suc k) B n st =
     (case chain_step B n st of
        Inl r \<Rightarrow> Some r
      | Inr c \<Rightarrow> genDecayChain k B (fst c) (snd c))"
proof -
  have "(case (case m of Inl e \<Rightarrow> Inl (Inl e) | Inr nst \<Rightarrow> chain_step_at B i (fst nst) (snd nst)) of
           Inl r \<Rightarrow> Some r | Inr c \<Rightarrow> genDecayChain k B (fst c) (snd c))
        = (case m of Inl e \<Rightarrow> Some (Inl e)
           | Inr nst \<Rightarrow>
             (case vec_at (levels (sys (snd nst))) (fst nst) of
                Inl e \<Rightarrow> Some (Inl e)
              | Inr l \<Rightarrow>
                  if fluxOut l = 0 \<or> (\<not> i \<and> lev_hl l > tcut (sys (snd nst)))
                  then Some (Inr (snd nst))
                  else (case fire B (fst nst) (snd nst) of
                          Inl e \<Rightarrow> Some (Inl e)
                        | Inr nst2 \<Rightarrow> genDecayChain k B (fst nst2) (snd nst2))))"
    for m :: "SMExcept + (nat \<times> GenState)" and i
    by (simp add: chain_step_at_def split: sum.splits)
  then show ?thesis by (simp add: chain_step_def Let_def)
qed

declare genDecayChain.simps(2) [simp del]

lemma genDecayChain_mono_Suc:
  "genDecayChain k B n st = Some r \<Longrightarrow> genDecayChain (Suc k) B n st = Some r"
proof (induction k arbitrary: n st)
  case 0
  then show ?case by simp
next
  case (Suc k)
  show ?case
  proof (cases "chain_step B n st")
    case (Inl a)
    with Suc.prems show ?thesis by (simp add: genDecayChain_Suc)
  next
    case (Inr c)
    with Suc.prems have "genDecayChain k B (fst c) (snd c) = Some r"
      by (simp add: genDecayChain_Suc)
    from Suc.IH [OF this] Inr show ?thesis by (simp add: genDecayChain_Suc [of "Suc k"])
  qed
qed

lemma genDecayChain_mono:
  assumes "genDecayChain k B n st = Some r" "k \<le> k'"
  shows "genDecayChain k' B n st = Some r"
  using assms(2,1)
proof (induction k' rule: dec_induct)
  case base
  then show ?case by simp
next
  case (step m)
  then show ?case by (simp add: genDecayChain_mono_Suc)
qed

lemma chain_step_at:
  "chain_step_at B init n1 st1 = Inr c \<Longrightarrow> n1 < length (levels (sys st1)) \<and> fire B n1 st1 = Inr c"
  by (cases "vec_at (levels (sys st1)) n1"; cases "fire B n1 st1")
     (simp_all add: chain_step_at_def vec_at_Inr_iff split: if_splits)

lemma chain_step_Inr:
  assumes ok: "chain_step B n st = Inr c"
  shows "\<exists>n1 st1. n1 < length (levels (sys st)) \<and> (n < length (levels (sys st)) \<longrightarrow> n1 = n \<and> st1 = st)
          \<and> sys st1 = sys st \<and> fire B n1 st1 = Inr c"
proof (cases "n \<ge> length (levels (sys st))")
  case True
  show ?thesis
  proof (cases "select_rnd (lStart (sys st)) (rnd_ptr st) (gRandom st)")
    case (Inl e)
    with ok True show ?thesis by (simp add: chain_step_def bindE_simps)
  next
    case (Inr sel)
    let ?st1 = "st \<lparr> rnd_ptr := fst (snd sel), gRandom := snd (snd sel) \<rparr>"
    from ok True Inr have "chain_step_at B True (fst sel) ?st1 = Inr c"
      by (simp add: chain_step_def bindE_simps)
    from chain_step_at [OF this] True show ?thesis
      by (intro exI [of _ "fst sel"] exI [of _ ?st1]) simp
  qed
next
  case False
  with ok have "chain_step_at B False n st = Inr c" by (simp add: chain_step_def)
  from chain_step_at [OF this] False show ?thesis
    by (intro exI [of _ n] exI [of _ st]) simp
qed

lemma chain_step_down:
  assumes ok: "chain_step B n st = Inr c" and dw: "downward (sys st)"
  shows "Suc (fst c) < length (levels (sys st)) \<and> (n < length (levels (sys st)) \<longrightarrow> fst c < n)
       \<and> graph_eq (sys st) (sys (snd c))"
proof -
  from chain_step_Inr [OF ok] obtain n1 st1 where
    n1: "n1 < length (levels (sys st))"
    and same: "n < length (levels (sys st)) \<longrightarrow> n1 = n \<and> st1 = st"
    and sy: "sys st1 = sys st" and f: "fire B n1 st1 = Inr c"
    by blast
  from fire_Inr [OF f] obtain i ti where
    i: "i < length (transOut (sys st) ! n1)" and ti: "ti = transOut (sys st) ! n1 ! i"
    and c: "fst c = lev_n (levels (sys st) ! tr_to (transitions (sys st) ! ti))"
    and ge: "graph_eq (sys st) (sys (snd c))"
    unfolding sy by blast
  from i ti have "ti \<in> set (transOut (sys st) ! n1)" by simp
  with dw n1 c have "fst c < n1" by (simp add: downward_def)
  with n1 same ge show ?thesis by auto
qed

lemma graph_eq_levels: "graph_eq S S' \<Longrightarrow> levels S' = levels S"
  by (simp add: graph_eq_def)

lemma genDecayChain_level_terminates:
  assumes "downward (sys st)" "n < length (levels (sys st))"
  shows "\<exists>r. genDecayChain (Suc n) B n st = Some r"
  using assms
proof (induction n arbitrary: st rule: less_induct)
  case (less n)
  show ?case
  proof (cases "chain_step B n st")
    case (Inl a)
    then show ?thesis by (simp add: genDecayChain_Suc)
  next
    case (Inr c)
    from chain_step_down [OF Inr less.prems(1)] less.prems(2)
    have lt: "fst c < n" and ge: "graph_eq (sys st) (sys (snd c))" by simp_all
    have dw: "downward (sys (snd c))" by (rule downward_graph_eq [OF ge less.prems(1)])
    have cl: "fst c < length (levels (sys (snd c)))"
      using lt less.prems(2) graph_eq_levels [OF ge] by simp
    from less.IH [OF lt dw cl] obtain r where "genDecayChain (Suc (fst c)) B (fst c) (snd c) = Some r"
      by blast
    then have "genDecayChain n B (fst c) (snd c) = Some r"
      by (rule genDecayChain_mono) (use lt in simp)
    with Inr show ?thesis by (simp add: genDecayChain_Suc)
  qed
qed

lemma genDecayChain_downward_terminates:
  assumes dw: "downward (sys st)"
  shows "\<exists>r. \<forall>k. max 1 (length (levels (sys st))) \<le> k \<longrightarrow> genDecayChain k B n st = Some r"
proof (cases "chain_step B n st")
  case (Inl a)
  have "genDecayChain k B n st = Some a" if "max 1 (length (levels (sys st))) \<le> k" for k
  proof -
    from that obtain j where "k = Suc j" by (cases k) auto
    with Inl show ?thesis by (simp add: genDecayChain_Suc)
  qed
  then show ?thesis by blast
next
  case (Inr c)
  from chain_step_down [OF Inr dw]
  have lt: "Suc (fst c) < length (levels (sys st))" and ge: "graph_eq (sys st) (sys (snd c))"
    by simp_all
  have dw': "downward (sys (snd c))" by (rule downward_graph_eq [OF ge dw])
  have cl: "fst c < length (levels (sys (snd c)))" using lt graph_eq_levels [OF ge] by simp
  from genDecayChain_level_terminates [OF dw' cl, of B]
  obtain r where r: "genDecayChain (Suc (fst c)) B (fst c) (snd c) = Some r" by blast
  have "genDecayChain k B n st = Some r" if "max 1 (length (levels (sys st))) \<le> k" for k
  proof -
    from that obtain j where k: "k = Suc j" by (cases k) auto
    with that lt have "Suc (fst c) \<le> j" by simp
    from genDecayChain_mono [OF r this] Inr show ?thesis by (simp add: k genDecayChain_Suc)
  qed
  then show ?thesis by blast
qed

subsection \<open>Claims about chain generation\<close>

text \<open>
  C2. In a system where every transition leads to a level of strictly lower energy,
  every call of \<open>genDecayChain\<close>, from whatever level and state, returns, and it makes
  no more calls (the first one, one per transition fired, the last of them the one that
  stops) than the system has levels; a system without levels takes the one call that
  fails in \<open>select\<close>.
\<close>

theorem genDecayChain_terminates:
  assumes inv: "NucDecaySystem_inv (sys st)" and dec: "decreasing (sys st)"
  shows "\<exists>r. \<forall>k. max 1 (length (levels (sys st))) \<le> k \<longrightarrow> genDecayChain k B n st = Some r"
  by (rule genDecayChain_downward_terminates) (rule inv_downward [OF inv dec])

lemma randomDirection_state [simp]:
  "snd (randomDirection None g) = (fst g, Suc (Suc (snd g)))"
  "snd (randomDirection (Some b) g) = g"
  by (simp_all add: randomDirection_def Let_def Uniform01_def)

lemmas chain_defs = genDecayChain_Suc chain_step_def chain_step_at_def fire_def run_def run_emit_def
  select_rnd_def select_def select_scaled_def select_null_def vec_at_def bindE_def randp_def
  nVacant_def Let_def Uniform01_def genAuger_def getAtom_def deref_toAtom_def

lemma chain3_inv: "NucDecaySystem_inv chain3" "decays_fresh chain3"
  using constructed_inv [OF chain3_constructed] by simp_all

lemma chain3_decreasing: "decreasing chain3"
  by (simp add: decreasing_def chain3_fields less_Suc_eq numeral_2_eq_2)

text \<open>
  C2, evaluated: the three-level chain started by the chain-start selector stops after
  three calls, having fired two transitions; two calls are not enough.
\<close>

theorem genDecayChain_terminates_witness:
  "NucDecaySystem_inv (sys (chain3_state None)) \<and> decreasing (sys (chain3_state None))
   \<and> (\<exists>r. \<forall>k. max 1 (length (levels (sys (chain3_state None)))) \<le> k \<longrightarrow>
          genDecayChain k (BEL chain3_ext) 7 (chain3_state None) = Some r)
   \<and> max 1 (length (levels (sys (chain3_state None)))) = 3
   \<and> map_option (map_sum id (\<lambda>r. map evt_d (out_v r)))
        (genDecayChain 3 (BEL chain3_ext) 7 (chain3_state None)) = Some (Inr [D_GAMMA, D_GAMMA])
   \<and> genDecayChain 2 (BEL chain3_ext) 7 (chain3_state None) = None"
proof -
  have s: "sys (chain3_state None) = chain3" by (simp add: chain3_state_def)
  have inv: "NucDecaySystem_inv (sys (chain3_state None))" by (simp add: s chain3_inv)
  have dec: "decreasing (sys (chain3_state None))" by (simp add: s chain3_decreasing)
  have n: "max 1 (length (levels (sys (chain3_state None)))) = 3" by (simp add: s chain3_fields)
  have e3: "map_option (map_sum id (\<lambda>r. map evt_d (out_v r)))
        (genDecayChain 3 (BEL chain3_ext) 7 (chain3_state None)) = Some (Inr [D_GAMMA, D_GAMMA])"
    by (simp add: numeral_3_eq_3 chain3_state_def chain_defs chain3_fields)
  have e2: "genDecayChain 2 (BEL chain3_ext) 7 (chain3_state None) = None"
    by (simp add: numeral_2_eq_2 chain3_state_def chain_defs chain3_fields)
  from genDecayChain_terminates [OF inv dec, of "BEL chain3_ext" 7] inv dec n e3 e2
  show ?thesis by (intro conjI)
qed

subsection \<open>Facts about getNDF\<close>


























lemma weights_graph_eq:
  assumes ge: "graph_eq S S'" and lt: "\<forall>i \<in> set is. i < length (transitions S)"
  shows "map (\<lambda>ti. Itotal (transitions S' ! ti)) is = map (\<lambda>ti. Itotal (transitions S ! ti)) is"
  using assms by (simp add: graph_eq_def)










lemma shells_of_toAtom [simp]: "shells_of (T \<lparr> toAtom := a \<rparr>) = shells_of T"
  by (cases "kind T") (simp_all add: shells_of_def)










lemma setCutoff_transitions [simp]: "transitions (setCutoff t S) = transitions S"
proof -
  have "transitions (fold setCutoff_level ns S') = transitions S'" for ns S'
    by (induction ns arbitrary: S') (simp_all add: setCutoff_level_def Let_def)
  then show ?thesis by (simp add: setCutoff_def)
qed



subsection \<open>The selectors of a chain\<close>



















lemma ecapt_fields:
  "levels ecapt_sys =
     [\<lparr> lev_name = ''1.1.0'', lev_A = 1, lev_Z = 1, lev_n = 0, lev_E = 0, lev_hl = DBL_MAX,
        lev_jpi = [], fluxIn = 1, fluxOut = 0 \<rparr>,
      \<lparr> lev_name = ''1.2.0'', lev_A = 1, lev_Z = 2, lev_n = 1, lev_E = 1, lev_hl = 0,
        lev_jpi = [], fluxIn = 0, fluxOut = 1 \<rparr>]"
  "transitions ecapt_sys =
     [\<lparr> tr_from = 1, tr_to = 0, Itotal = 1, toAtom = Some 1, NDF = 0, kind = ECapture False \<rparr>]"
  "transIn ecapt_sys = [[0], []]"
  "transOut ecapt_sys = [[], [0]]"
  "levelDecays ecapt_sys = [\<lparr> cumprob = [0] \<rparr>, \<lparr> cumprob = [0, 1] \<rparr>]"
  "lStart ecapt_sys = \<lparr> cumprob = [0, 0, 1] \<rparr>"
  "tcut ecapt_sys = 10"
  "atoms ecapt_sys 1 = Some \<lparr> BET = \<lparr> bet_Z = 1, getSubshellBinding = (\<lambda>s ss. 0) \<rparr>, Eauger = 0,
       Iauger = 1 / 2, Ikxr = 1 / 2, ICEK = 0, IMissing = 1, pAuger = 1 / 2 \<rparr>"
  "NucDecaySystem_new chain3_ext ecapt_file 10 = Inr ecapt_sys"
  "atoms ecapt_sys (Suc 0) = Some \<lparr> BET = \<lparr> bet_Z = 1, getSubshellBinding = (\<lambda>s ss. 0) \<rparr>,
       Eauger = 0, Iauger = 1 / 2, Ikxr = 1 / 2, ICEK = 0, IMissing = 1, pAuger = 1 / 2 \<rparr>"
  by (simp_all add: ecapt_sys_def chain3_ext_def ecapt_file_def ctor_defs upt_rec ctor_auger_def
      load_def ctor_ecapt_def ECapture_new_def)


lemma run_view_eq:
  assumes "run_view T' = run_view T"
  shows "tr_from T' = tr_from T" "tr_to T' = tr_to T" "Itotal T' = Itotal T" "NDF T' = NDF T"
    "strip_kind (kind T') = strip_kind (kind T)"
  using assms by (simp_all add: run_view_def)

lemma strip_kind_eq:
  assumes "strip_kind K' = strip_kind K"
  shows "case K of
           ConversionGamma eg ig shs sshs un s1 s2 \<Rightarrow> (\<exists>t1 t2. K' = ConversionGamma eg ig shs sshs un t1 t2)
         | BetaDecayTrans p q r \<Rightarrow> K' = BetaDecayTrans p q r
         | ECapture k \<Rightarrow> (\<exists>k'. K' = ECapture k')"
  using assms by (cases K; cases K') (simp_all add: strip_kind_def)

lemma same_input_nth:
  assumes "same_input st st'"
  shows "length (transitions (sys st')) = length (transitions (sys st))"
    and "ti < length (transitions (sys st)) \<Longrightarrow>
           run_view (transitions (sys st') ! ti) = run_view (transitions (sys st) ! ti)"
proof -
  from assms have m: "map run_view (transitions (sys st')) = map run_view (transitions (sys st))"
    by (simp add: same_input_def)
  from arg_cong [OF m, of length] show l: "length (transitions (sys st')) = length (transitions (sys st))"
    by simp
  assume ti: "ti < length (transitions (sys st))"
  from arg_cong [OF m, of "\<lambda>xs. xs ! ti"] ti l
  show "run_view (transitions (sys st') ! ti) = run_view (transitions (sys st) ! ti)" by simp
qed


lemma randomDirection_buffer:
  "fst (randomDirection (Some b) g) = fst (randomDirection (Some b) g')"
  "snd (randomDirection (Some b) g) = g"
  by (simp_all add: randomDirection_def Let_def)

lemma select_rnd_buffer:
  "select_rnd P (Some b) g =
     (case select P (fst b (snd b)) of
        Inl e \<Rightarrow> Inl e
      | Inr ir \<Rightarrow> Inr (fst ir, Some ((fst b) (snd b := snd ir), snd b), g))"
  by (simp add: select_rnd_def)

lemma run_gamma_buffer:
  assumes T: "vec_at (transitions (sys st)) ti = Inr T"
    and k: "kind T = ConversionGamma eg ig shs [] un s1 s2"
    and r: "rnd_ptr st = Some b"
  shows "run ti st =
     (case select shs (fst b (snd b)) of
        Inl e \<Rightarrow> Inl e
      | Inr ir \<Rightarrow>
          Inr (st \<lparr> sys := (sys st) \<lparr> transitions := (transitions (sys st))
                     [ti := T \<lparr> kind := ConversionGamma eg ig shs [] un (- 1) (- 1) \<rparr>] \<rparr>,
                    out_v := out_v st @
                      [\<lparr> evt_E = eg, evt_d = D_GAMMA,
                         evt_p = fst (randomDirection
                                   (Some ((fst b) (snd b := snd ir), snd b)) ((\<lambda>i. 0), 0)) \<rparr>],
                    rnd_ptr := Some ((fst b) (snd b := snd ir), snd b) \<rparr>))"
proof (cases "select shs (fst b (snd b))")
  case (Inl e)
  then show ?thesis by (simp add: run_def T k r bindE_def select_rnd_buffer)
next
  case (Inr ir)
  have d: "fst (randomDirection (Some ((fst b) (snd b := snd ir), snd b)) (gRandom st))
         = fst (randomDirection (Some ((fst b) (snd b := snd ir), snd b)) ((\<lambda>i. 0), 0))"
    by (rule randomDirection_buffer(1))
  show ?thesis
    by (simp add: run_def T k r bindE_def select_rnd_buffer Inr run_emit_def randp_def Let_def
        randomDirection_buffer(2) d)
qed

lemma run_beta_buffer:
  assumes T: "vec_at (transitions (sys st)) ti = Inr T"
    and k: "kind T = BetaDecayTrans p q gr"
    and r: "rnd_ptr st = Some b"
  shows "run ti st =
     Inr (st \<lparr> out_v := out_v st @
                 [\<lparr> evt_E = q (fst b (snd b + 2)),
                    evt_d = (if p then D_POSITRON else D_ELECTRON),
                    evt_p = fst (randomDirection (Some b) ((\<lambda>i. 0), 0)) \<rparr>] \<rparr>)"
proof -
  have d: "fst (randomDirection (Some b) (gRandom st))
         = fst (randomDirection (Some b) ((\<lambda>i. 0), 0))"
    by (rule randomDirection_buffer(1))
  show ?thesis
    by (simp add: run_def T k r bindE_def randp_def Let_def randomDirection_buffer(2) d)
qed

lemma no_ambient_update:
  assumes "no_ambient S" and "transitions S' = (transitions S) [ti := T]"
    and "case kind T of ConversionGamma eg ig shs sshs un s1 s2 \<Rightarrow> sshs = []
         | BetaDecayTrans p q r \<Rightarrow> True | ECapture k \<Rightarrow> False"
  shows "no_ambient S'"
proof -
  have "set ((transitions S) [ti := T]) \<subseteq> insert T (set (transitions S))"
    by (rule set_update_subset_insert)
  with assms show ?thesis unfolding no_ambient_def by auto
qed

lemma run_agree:
  assumes na: "no_ambient (sys st)" and r: "rnd_ptr st = Some b" and ag: "same_input st st'"
  shows "(\<exists>e. run ti st = Inl e \<and> run ti st' = Inl e)
       \<or> (\<exists>s s'. run ti st = Inr s \<and> run ti st' = Inr s' \<and> same_input s s'
            \<and> rnd_ptr s \<noteq> None \<and> no_ambient (sys s)
            \<and> ti < length (transitions (sys s))
            \<and> nVacant (transitions (sys s) ! ti) 0 = 0
            \<and> nVacant (transitions (sys s') ! ti) 0 = 0)"
proof (cases "ti < length (transitions (sys st))")
  case False
  with same_input_nth(1) [OF ag] show ?thesis
    by (simp add: run_def vec_at_def bindE_def)
next
  case True
  let ?T = "transitions (sys st) ! ti"
  let ?T' = "transitions (sys st') ! ti"
  note len = same_input_nth(1) [OF ag]
  from True have v: "vec_at (transitions (sys st)) ti = Inr ?T" by (simp add: vec_at_def)
  from True len have v': "vec_at (transitions (sys st')) ti = Inr ?T'" by (simp add: vec_at_def)
  note rv = same_input_nth(2) [OF ag True]
  note sk = strip_kind_eq [OF run_view_eq(5) [OF rv]]
  from ag r have r': "rnd_ptr st' = Some b" by (simp add: same_input_def)
  from True have mem: "?T \<in> set (transitions (sys st))" by simp
  from ag have m: "map run_view (transitions (sys st')) = map run_view (transitions (sys st))"
    by (simp add: same_input_def)
  show ?thesis
  proof (cases "kind ?T")
    case (ConversionGamma eg ig shs sshs un s1 s2)
    with na mem have e: "sshs = []" by (auto simp: no_ambient_def)
    from sk ConversionGamma e obtain t1 t2 where
      k': "kind ?T' = ConversionGamma eg ig shs [] un t1 t2" by auto
    from ConversionGamma e have k: "kind ?T = ConversionGamma eg ig shs [] un s1 s2" by simp
    note a = run_gamma_buffer [OF v k r]
    note a' = run_gamma_buffer [OF v' k' r']
    show ?thesis
    proof (cases "select shs (fst b (snd b))")
      case (Inl e)
      then show ?thesis by (simp add: a a')
    next
      case (Inr ir)
      let ?K = "ConversionGamma eg ig shs [] un (- 1) (- 1)"
      have rv1: "run_view (?T' \<lparr> kind := ?K \<rparr>) = run_view (?T \<lparr> kind := ?K \<rparr>)"
        using rv by (simp add: run_view_def)
      have mm: "map run_view ((transitions (sys st')) [ti := ?T' \<lparr> kind := ?K \<rparr>])
              = map run_view ((transitions (sys st)) [ti := ?T \<lparr> kind := ?K \<rparr>])"
        by (simp add: map_update m rv1)
      have na1: "no_ambient ((sys st) \<lparr> transitions :=
                   (transitions (sys st)) [ti := ?T \<lparr> kind := ?K \<rparr>] \<rparr>)"
        by (rule no_ambient_update [OF na, where ti = ti and T = "?T \<lparr> kind := ?K \<rparr>"]) simp_all
      show ?thesis
        using ag True len mm na1
        by (simp add: a a' Inr same_input_def nVacant_def)
    qed
  next
    case (BetaDecayTrans p q gr)
    with sk have k': "kind ?T' = BetaDecayTrans p q gr" by simp
    note a = run_beta_buffer [OF v BetaDecayTrans r]
    note a' = run_beta_buffer [OF v' k' r']
    show ?thesis
      using ag True len na r BetaDecayTrans k'
      by (simp add: a a' same_input_def nVacant_def)
  next
    case (ECapture k)
    with na mem show ?thesis by (auto simp: no_ambient_def)
  qed
qed


lemma fire_agree:
  assumes na: "no_ambient (sys st)" and r: "rnd_ptr st = Some b" and ag: "same_input st st'"
  shows "(\<exists>e. fire B n st = Inl e \<and> fire B n st' = Inl e)
       \<or> (\<exists>m s s'. fire B n st = Inr (m, s) \<and> fire B n st' = Inr (m, s') \<and> same_input s s'
            \<and> rnd_ptr s \<noteq> None \<and> no_ambient (sys s))"
proof -
  from ag r have r': "rnd_ptr st' = Some b" by (simp add: same_input_def)
  from ag have ld: "levelDecays (sys st') = levelDecays (sys st)"
    and to: "transOut (sys st') = transOut (sys st)"
    by (simp_all add: same_input_def)
  show ?thesis
  proof (cases "vec_at (levelDecays (sys st)) n")
    case (Inl e)
    then show ?thesis by (simp add: fire_def ld bindE_def)
  next
    case ld1: (Inr P)
    show ?thesis
    proof (cases "select P (fst b (snd b))")
      case (Inl e)
      then show ?thesis by (simp add: fire_def ld ld1 bindE_def r r' select_rnd_buffer)
    next
      case sel: (Inr ir)
      let ?b = "((fst b) (snd b := snd ir), snd b)"
      show ?thesis
      proof (cases "vec_at (transOut (sys st)) n")
        case (Inl e)
        then show ?thesis by (simp add: fire_def ld to ld1 sel bindE_def r r' select_rnd_buffer)
      next
        case to1: (Inr tout)
        show ?thesis
        proof (cases "vec_at tout (fst ir)")
          case (Inl e)
          then show ?thesis
            by (simp add: fire_def ld to ld1 to1 sel bindE_def r r' select_rnd_buffer)
        next
          case ti: (Inr ti)
          let ?sa = "st \<lparr> rnd_ptr := Some ?b, gRandom := gRandom st \<rparr>"
          let ?sa' = "st' \<lparr> rnd_ptr := Some ?b, gRandom := gRandom st' \<rparr>"
          let ?rest = "\<lambda>st1. bindE (vec_at (transitions (sys st1)) ti) (\<lambda>T.
             bindE (vec_at (levels (sys st1)) (tr_to T)) (\<lambda>lto.
             bindE (genAuger_loop (nVacant T 0) B (lev_Z lto)
                      (st1 \<lparr> rnd_ptr := map_option (\<lambda>b. (fst b, snd b + NDF T)) (rnd_ptr st1) \<rparr>))
               (\<lambda>st2. Inr (lev_n lto, st2))))"
          have f: "fire B n st = bindE (run ti ?sa) ?rest"
            by (simp add: fire_def ld1 to1 sel ti bindE_simps r select_rnd_buffer)
          have f': "fire B n st' = bindE (run ti ?sa') ?rest"
            by (simp add: fire_def ld to ld1 to1 sel ti bindE_simps r' select_rnd_buffer)
          have na_a: "no_ambient (sys ?sa)" using na by simp
          have r_a: "rnd_ptr ?sa = Some ?b" by simp
          have ag_a: "same_input ?sa ?sa'" using ag by (simp add: same_input_def)
          from run_agree [OF na_a r_a ag_a, of ti] show ?thesis
          proof
            assume "\<exists>e. run ti ?sa = Inl e \<and> run ti ?sa' = Inl e"
            then show ?thesis unfolding f f' by (auto simp: bindE_simps)
          next
            assume "\<exists>s s'. run ti ?sa = Inr s \<and> run ti ?sa' = Inr s' \<and> same_input s s'
              \<and> rnd_ptr s \<noteq> None \<and> no_ambient (sys s)
              \<and> ti < length (transitions (sys s))
              \<and> nVacant (transitions (sys s) ! ti) 0 = 0
              \<and> nVacant (transitions (sys s') ! ti) 0 = 0"
            then obtain s s' where rs: "run ti ?sa = Inr s" and rs': "run ti ?sa' = Inr s'"
              and ag1: "same_input s s'" and r1: "rnd_ptr s \<noteq> None" and na1: "no_ambient (sys s)"
              and tl: "ti < length (transitions (sys s))"
              and nv: "nVacant (transitions (sys s) ! ti) 0 = 0"
              and nv': "nVacant (transitions (sys s') ! ti) 0 = 0"
              by blast
            let ?T = "transitions (sys s) ! ti"
            let ?T' = "transitions (sys s') ! ti"
            note len = same_input_nth(1) [OF ag1]
            note rv = run_view_eq [OF same_input_nth(2) [OF ag1 tl]]
            from ag1 have lv: "levels (sys s') = levels (sys s)" and rp: "rnd_ptr s' = rnd_ptr s"
              by (simp_all add: same_input_def)
            have g: "fire B n st = bindE (vec_at (levels (sys s)) (tr_to ?T)) (\<lambda>lto.
                Inr (lev_n lto,
                     s \<lparr> rnd_ptr := map_option (\<lambda>b. (fst b, snd b + NDF ?T)) (rnd_ptr s) \<rparr>))"
              unfolding f rs by (simp add: bindE_simps vec_at_def tl nv)
            have g': "fire B n st' = bindE (vec_at (levels (sys s)) (tr_to ?T)) (\<lambda>lto.
                Inr (lev_n lto,
                     s' \<lparr> rnd_ptr := map_option (\<lambda>b. (fst b, snd b + NDF ?T)) (rnd_ptr s) \<rparr>))"
              unfolding f' rs' by (simp add: bindE_simps vec_at_def tl len nv' rv lv rp)
            show ?thesis
            proof (cases "vec_at (levels (sys s)) (tr_to ?T)")
              case (Inl e)
              then show ?thesis by (simp add: g g' bindE_simps)
            next
              case (Inr lto)
              from ag1 r1 na1 show ?thesis
                by (auto simp: g g' Inr bindE_simps same_input_def)
            qed
          qed
        qed
      qed
    qed
  qed
qed

lemma chain_step_at_agree:
  assumes na: "no_ambient (sys st)" and r: "rnd_ptr st = Some b" and ag: "same_input st st'"
  shows "(\<exists>e. chain_step_at B i n st = Inl (Inl e) \<and> chain_step_at B i n st' = Inl (Inl e))
       \<or> (\<exists>s s'. chain_step_at B i n st = Inl (Inr s) \<and> chain_step_at B i n st' = Inl (Inr s')
            \<and> out_v s' = out_v s)
       \<or> (\<exists>m s s'. chain_step_at B i n st = Inr (m, s) \<and> chain_step_at B i n st' = Inr (m, s')
            \<and> same_input s s' \<and> rnd_ptr s \<noteq> None \<and> no_ambient (sys s))"
proof -
  from ag have lv: "levels (sys st') = levels (sys st)" and tc: "tcut (sys st') = tcut (sys st)"
    and ov: "out_v st' = out_v st"
    by (simp_all add: same_input_def)
  show ?thesis
  proof (cases "vec_at (levels (sys st)) n")
    case (Inl e)
    then show ?thesis by (simp add: chain_step_at_def lv)
  next
    case (Inr l)
    show ?thesis
    proof (cases "fluxOut l = 0 \<or> (\<not> i \<and> lev_hl l > tcut (sys st))")
      case True
      then show ?thesis using ov by (simp add: chain_step_at_def lv tc Inr)
    next
      case False
      from fire_agree [OF na r ag, of B n] show ?thesis
      proof
        assume "\<exists>e. fire B n st = Inl e \<and> fire B n st' = Inl e"
        then show ?thesis using False by (auto simp: chain_step_at_def lv tc Inr)
      next
        assume "\<exists>m s s'. fire B n st = Inr (m, s) \<and> fire B n st' = Inr (m, s') \<and> same_input s s'
            \<and> rnd_ptr s \<noteq> None \<and> no_ambient (sys s)"
        then show ?thesis using False by (auto simp: chain_step_at_def lv tc Inr)
      qed
    qed
  qed
qed

lemma chain_step_agree:
  assumes na: "no_ambient (sys st)" and r: "rnd_ptr st = Some b" and ag: "same_input st st'"
  shows "(\<exists>e. chain_step B n st = Inl (Inl e) \<and> chain_step B n st' = Inl (Inl e))
       \<or> (\<exists>s s'. chain_step B n st = Inl (Inr s) \<and> chain_step B n st' = Inl (Inr s')
            \<and> out_v s' = out_v s)
       \<or> (\<exists>m s s'. chain_step B n st = Inr (m, s) \<and> chain_step B n st' = Inr (m, s')
            \<and> same_input s s' \<and> rnd_ptr s \<noteq> None \<and> no_ambient (sys s))"
proof -
  from ag r have r': "rnd_ptr st' = Some b" by (simp add: same_input_def)
  from ag have lv: "levels (sys st') = levels (sys st)" and ls: "lStart (sys st') = lStart (sys st)"
    by (simp_all add: same_input_def)
  show ?thesis
  proof (cases "n \<ge> length (levels (sys st))")
    case False
    then have "chain_step B n st = chain_step_at B False n st"
      "chain_step B n st' = chain_step_at B False n st'"
      by (simp_all add: chain_step_def lv)
    with chain_step_at_agree [OF na r ag, of B False n] show ?thesis by simp
  next
    case True
    show ?thesis
    proof (cases "select (lStart (sys st)) (fst b (snd b))")
      case (Inl e)
      with True show ?thesis
        by (simp add: chain_step_def lv ls r r' select_rnd_buffer bindE_simps)
    next
      case (Inr ir)
      let ?b = "((fst b) (snd b := snd ir), snd b)"
      let ?sa = "st \<lparr> rnd_ptr := Some ?b, gRandom := gRandom st \<rparr>"
      let ?sa' = "st' \<lparr> rnd_ptr := Some ?b, gRandom := gRandom st' \<rparr>"
      from True Inr have c: "chain_step B n st = chain_step_at B True (fst ir) ?sa"
        "chain_step B n st' = chain_step_at B True (fst ir) ?sa'"
        by (simp_all add: chain_step_def lv ls r r' select_rnd_buffer bindE_simps)
      have na_a: "no_ambient (sys ?sa)" using na by simp
      have r_a: "rnd_ptr ?sa = Some ?b" by simp
      have ag_a: "same_input ?sa ?sa'" using ag by (simp add: same_input_def)
      from chain_step_at_agree [OF na_a r_a ag_a, of B True "fst ir"] show ?thesis
        unfolding c .
    qed
  qed
qed

text \<open>
  C1, as the code has it. In a system without electron captures and without conversion
  electrons, two calls of \<open>genDecayChain\<close> with the same non-null buffer, the same
  initial output vector and the same start level, on states with the same decay graph
  (whatever the ambient source, the atoms and the members written by earlier calls),
  return the same output events, or raise the same error.
\<close>

theorem genDecayChain_buffer_deterministic:
  assumes "no_ambient (sys st)" and "rnd_ptr st \<noteq> None" and "same_input st st'"
  shows "chain_events (genDecayChain k B n st') = chain_events (genDecayChain k B n st)"
  using assms
proof (induction k arbitrary: n st st')
  case 0
  then show ?case by simp
next
  case (Suc k)
  from Suc.prems(2) obtain b where r: "rnd_ptr st = Some b" by auto
  from chain_step_agree [OF Suc.prems(1) r Suc.prems(3), of B n]
  consider (err) e where "chain_step B n st = Inl (Inl e)" "chain_step B n st' = Inl (Inl e)"
    | (stop) s s' where "chain_step B n st = Inl (Inr s)" "chain_step B n st' = Inl (Inr s')"
        "out_v s' = out_v s"
    | (rec) m s s' where "chain_step B n st = Inr (m, s)" "chain_step B n st' = Inr (m, s')"
        "same_input s s'" "rnd_ptr s \<noteq> None" "no_ambient (sys s)"
    by blast
  then show ?case
  proof cases
    case err
    then show ?thesis by (simp add: genDecayChain_Suc)
  next
    case stop
    then show ?thesis by (simp add: genDecayChain_Suc chain_events_def)
  next
    case rec
    from Suc.IH [OF rec(5,4,3), of m] rec(1,2) show ?thesis by (simp add: genDecayChain_Suc)
  qed
qed


text \<open>
  C1, evaluated on the three-level chain of gammas: with the same buffer and another
  ambient source the call returns the same two gammas.
\<close>

theorem genDecayChain_buffer_deterministic_witness:
  "no_ambient (sys (chain3_state (Some ((\<lambda>i. 1 / 2), 0))))
   \<and> rnd_ptr (chain3_state (Some ((\<lambda>i. 1 / 2), 0))) \<noteq> None
   \<and> same_input (chain3_state (Some ((\<lambda>i. 1 / 2), 0)))
        ((chain3_state (Some ((\<lambda>i. 1 / 2), 0))) \<lparr> gRandom := ((\<lambda>i. 3 / 4), 9) \<rparr>)
   \<and> chain_events (genDecayChain 3 (BEL chain3_ext) 7
        ((chain3_state (Some ((\<lambda>i. 1 / 2), 0))) \<lparr> gRandom := ((\<lambda>i. 3 / 4), 9) \<rparr>))
     = chain_events (genDecayChain 3 (BEL chain3_ext) 7 (chain3_state (Some ((\<lambda>i. 1 / 2), 0))))
   \<and> map_option (map_sum id (map evt_d))
        (chain_events (genDecayChain 3 (BEL chain3_ext) 7 (chain3_state (Some ((\<lambda>i. 1 / 2), 0)))))
     = Some (Inr [D_GAMMA, D_GAMMA])"
proof -
  let ?X = "chain3_state (Some ((\<lambda>i. 1 / 2), 0))"
  let ?Y = "?X \<lparr> gRandom := ((\<lambda>i. 3 / 4), 9) \<rparr>"
  have a: "no_ambient (sys ?X)"
    by (simp add: no_ambient_def chain3_state_def chain3_fields)
  have b: "rnd_ptr ?X \<noteq> None" by (simp add: chain3_state_def)
  have c: "same_input ?X ?Y" by (simp add: same_input_def)
  have d: "map_option (map_sum id (map evt_d))
        (chain_events (genDecayChain 3 (BEL chain3_ext) 7 ?X)) = Some (Inr [D_GAMMA, D_GAMMA])"
    by (simp add: chain_defs chain3_state_def chain3_fields numeral_3_eq_3 chain_events_def)
  note e = genDecayChain_buffer_deterministic [OF a b c, of 3 "BEL chain3_ext" 7]
  from a b c e d show ?thesis by (intro conjI)
qed

lemma ecapt_first:
  "genDecayChain 2 (BEL chain3_ext) 7 ecapt_state =
     Some (Inr \<lparr> sys = ecapt_sys \<lparr> transitions :=
                    [\<lparr> tr_from = 1, tr_to = 0, Itotal = 1, toAtom = Some 1, NDF = 0,
                       kind = ECapture True \<rparr>] \<rparr>,
                 out_v = [\<lparr> evt_E = 0, evt_d = D_ELECTRON,
                            evt_p = fst (randomDirection None
                                      ((\<lambda>i. if i < 4 then 1 / 4 else 3 / 4), 2)) \<rparr>],
                 rnd_ptr = Some ((\<lambda>i. 1 / 2), 0),
                 gRandom = ((\<lambda>i. if i < 4 then 1 / 4 else 3 / 4), 4) \<rparr>)"
proof -
  have u: "(\<lambda>i. 1 / 2 :: real) (0 := 1 / 2) = (\<lambda>i. 1 / 2)" by auto
  show ?thesis
    by (simp add: chain_defs ecapt_state_def ecapt_fields numeral_2_eq_2 chain3_ext_def u
        eval_nat_numeral)
qed

text \<open>
  C1 as stated fails: on the electron capture with \<open>pAuger = 1/2\<close> a first call with
  the buffer of values 1/2 and an empty output vector returns one Auger electron, and a
  second call with the same buffer and an empty output vector, on the system and the
  ambient source as the first call left them, returns no event.
\<close>

theorem genDecayChain_ambient_dependence:
  "rnd_ptr ecapt_state \<noteq> None
   \<and> same_input ecapt_state
        (second_call (genDecayChain 2 (BEL chain3_ext) 7 ecapt_state) ecapt_state)
   \<and> map_option (map_sum id (map evt_d))
        (chain_events (genDecayChain 2 (BEL chain3_ext) 7 ecapt_state))
     = Some (Inr [D_ELECTRON])
   \<and> map_option (map_sum id (map evt_d))
        (chain_events (genDecayChain 2 (BEL chain3_ext) 7
           (second_call (genDecayChain 2 (BEL chain3_ext) 7 ecapt_state) ecapt_state)))
     = Some (Inr [])"
proof -
  let ?S2 = "\<lparr> sys = ecapt_sys \<lparr> transitions :=
                    [\<lparr> tr_from = 1, tr_to = 0, Itotal = 1, toAtom = Some 1, NDF = 0,
                       kind = ECapture True \<rparr>] \<rparr>,
              out_v = [], rnd_ptr = Some ((\<lambda>i. 1 / 2 :: real), 0 :: nat),
              gRandom = ((\<lambda>i. if i < 4 then 1 / 4 else 3 / 4 :: real), 4 :: nat) \<rparr>"
  have sc: "second_call (genDecayChain 2 (BEL chain3_ext) 7 ecapt_state) ecapt_state = ?S2"
    unfolding ecapt_first second_call_def by (simp add: ecapt_state_def)
  have a: "rnd_ptr ecapt_state \<noteq> None" by (simp add: ecapt_state_def)
  have b: "same_input ecapt_state
        (second_call (genDecayChain 2 (BEL chain3_ext) 7 ecapt_state) ecapt_state)"
    unfolding sc
    by (simp add: same_input_def ecapt_state_def ecapt_fields run_view_def strip_kind_def)
  have c: "map_option (map_sum id (map evt_d))
        (chain_events (genDecayChain 2 (BEL chain3_ext) 7 ecapt_state))
     = Some (Inr [D_ELECTRON])"
    unfolding ecapt_first by (simp add: chain_events_def)
  have d: "map_option (map_sum id (map evt_d))
        (chain_events (genDecayChain 2 (BEL chain3_ext) 7
           (second_call (genDecayChain 2 (BEL chain3_ext) 7 ecapt_state) ecapt_state)))
     = Some (Inr [])"
    unfolding sc
    by (simp add: chain_events_def chain_defs ecapt_fields numeral_2_eq_2 chain3_ext_def
        eval_nat_numeral)
  from a b c d show ?thesis by (intro conjI)
qed

subsection \<open>Rounding to the nearest double\<close>

lemma ulp_pos [simp]: "0 < ulp x"
  by (simp add: ulp_def)

lemma rne_near:
  assumes "\<bar>y - of_int n\<bar> < 1 / 2"
  shows "rne y = n"
proof -
  from assms have lo: "of_int n - 1 / 2 < y" and hi: "y < of_int n + 1 / 2"
    unfolding abs_less_iff by linarith+
  have "\<lfloor>y\<rfloor> = n \<or> \<lfloor>y\<rfloor> = n - 1" using lo hi by linarith
  then show ?thesis
  proof
    assume f: "\<lfloor>y\<rfloor> = n"
    with hi have "y - of_int \<lfloor>y\<rfloor> < 1 / 2" by simp
    with f show ?thesis by (simp add: rne_def Let_def)
  next
    assume f: "\<lfloor>y\<rfloor> = n - 1"
    with lo have "1 / 2 < y - of_int \<lfloor>y\<rfloor>" by simp
    with f show ?thesis by (simp add: rne_def Let_def)
  qed
qed

lemma powr_powi: "(2::real) powr of_int k = 2 powi k"
  by (simp add: powr_real_of_int')

lemma binade_eq:
  assumes "0 < x" "- 1022 \<le> e" "2 powi e \<le> x \<or> e = - 1022" "x < 2 powi (e + 1)"
  shows "binade x = e"
proof (cases "2 powi e \<le> x")
  case True
  have "2 powr of_int e \<le> x \<and> x < 2 powr of_int (e + 1)"
    using True assms(4) by (simp only: powr_powi)
  then have "\<lfloor>log 2 x\<rfloor> = e"
    using assms(1) by (subst floor_log_eq_powr_iff) simp_all
  with assms show ?thesis by (simp add: binade_def)
next
  case False
  with assms have e: "e = - 1022" by simp
  have "x < 2 powr of_int (- 1021)"
    using assms(4) e by (simp only: powr_powi) simp
  then have "log 2 x < of_int (- 1021)"
    using assms(1) by (subst log_less_iff) simp_all
  then have "\<lfloor>log 2 x\<rfloor> \<le> - 1022" by linarith
  with assms e show ?thesis by (simp add: binade_def)
qed

lemma fl_near:
  assumes "0 < x" "- 1022 \<le> e" "2 powi e \<le> x \<or> e = - 1022" "x < 2 powi (e + 1)"
    and "(of_int n - 1 / 2) * 2 powi (e - 52) < x" and "x < (of_int n + 1 / 2) * 2 powi (e - 52)"
  shows "fl x = of_int n * 2 powi (e - 52)"
proof -
  define u :: real where "u = 2 powi (e - 52)"
  have b: "binade x = e" by (rule binade_eq [OF assms(1-4)])
  have p: "0 < u" by (simp add: u_def)
  from assms(5,6) p have "of_int n - 1 / 2 < x / u" "x / u < of_int n + 1 / 2"
    by (simp_all add: field_simps u_def)
  then have "\<bar>x / u - of_int n\<bar> < 1 / 2" unfolding abs_less_iff by linarith
  then have "rne (x / u) = n" by (rule rne_near)
  with assms(1) b show ?thesis by (simp add: fl_def ulp_def u_def)
qed


lemma rne_of_int [simp]: "rne (of_int k) = k"
  by (rule rne_near) simp

lemma rne_0 [simp]: "rne 0 = 0"
  using rne_of_int [of 0] by simp

lemma rne_numeral [simp]: "rne (numeral k) = numeral k"
  using rne_of_int [of "numeral k"] by simp

lemma ulp_scale:
  "ulp x * 2 ^ 52 = 2 powi (binade x)" "ulp x * 2 ^ 53 = 2 powi (binade x + 1)"
proof -
  have a: "(2::real) powi (binade x - 52) = 2 powi (binade x) / 2 powi 52"
    by (simp add: power_int_diff)
  have b: "(2::real) powi 52 = 2 ^ 52" by (simp add: power_int_def)
  have c: "(2::real) powi (binade x + 1) = 2 powi (binade x) * 2"
    by (simp add: power_int_add)
  show "ulp x * 2 ^ 52 = 2 powi (binade x)" by (simp add: ulp_def a b)
  show "ulp x * 2 ^ 53 = 2 powi (binade x + 1)" by (simp add: ulp_def a b c)
qed

lemma rne_bounds: "\<lfloor>y\<rfloor> \<le> rne y" "rne y \<le> \<lfloor>y\<rfloor> + 1"
  by (simp_all add: rne_def Let_def)

lemma rne_mono:
  assumes "x \<le> y"
  shows "rne x \<le> rne y"
proof (cases "\<lfloor>x\<rfloor> = \<lfloor>y\<rfloor>")
  case False
  with assms have "\<lfloor>x\<rfloor> < \<lfloor>y\<rfloor>" using floor_mono [OF assms] by linarith
  with rne_bounds(2) [of x] rne_bounds(1) [of y] show ?thesis by linarith
next
  case True
  with assms show ?thesis by (auto simp: rne_def Let_def)
qed


lemma fl_0 [simp]: "fl 0 = 0"
  by (simp add: fl_def)

lemma ulp_minus [simp]: "ulp (- x) = ulp x"
  by (simp add: ulp_def binade_def)

lemma fl_minus: "fl (- x) = - fl x"
  by (simp add: fl_def)

lemma rne_nonneg: "0 \<le> y \<Longrightarrow> 0 \<le> rne y"
  using rne_mono [of 0 y] by simp


text \<open>The binade of a positive number.\<close>

lemma binade_ge: "- 1022 \<le> binade x"
  by (simp add: binade_def)

lemma binade_upper:
  assumes "0 < x"
  shows "x < 2 powi (binade x + 1)"
proof -
  have "x < 2 powr (of_int \<lfloor>log 2 x\<rfloor> + 1)"
    using floor_log_eq_powr_iff [of x 2 "\<lfloor>log 2 x\<rfloor>"] assms by simp
  also have "\<dots> = 2 powi (\<lfloor>log 2 x\<rfloor> + 1)"
    using powr_powi [of "\<lfloor>log 2 x\<rfloor> + 1"] by simp
  also have "\<dots> \<le> 2 powi (binade x + 1)"
    using assms by (intro power_int_increasing) (simp_all add: binade_def)
  finally show ?thesis .
qed

lemma binade_lower:
  assumes "0 < x" and "- 1022 < binade x"
  shows "2 powi (binade x) \<le> x"
proof -
  from assms have b: "binade x = \<lfloor>log 2 x\<rfloor>" by (simp add: binade_def max_def split: if_splits)
  have "2 powr (of_int \<lfloor>log 2 x\<rfloor>) \<le> x"
    using floor_log_eq_powr_iff [of x 2 "\<lfloor>log 2 x\<rfloor>"] assms(1) by simp
  then show ?thesis unfolding b powr_powi .
qed


lemma fl_pos: "0 < x \<Longrightarrow> fl x = of_int (rne (x / ulp x)) * ulp x"
  by (simp add: fl_def)




















lemma three_tenths: "fl (3 / 10) = 5404319552844595 / 18014398509481984"
proof -
  have "fl (3 / 10) = of_int 5404319552844595 * 2 powi (- 2 - 52)"
    by (rule fl_near) (simp_all add: power_int_def field_simps)
  also have "\<dots> = 5404319552844595 / 18014398509481984" by (simp add: power_int_def field_simps)
  finally show ?thesis .
qed


lemma sc_1: "fl (5404319552844595 / 18014398509481984) = 5404319552844595 / 18014398509481984"
proof -
  have "fl (5404319552844595 / 18014398509481984) = of_int 5404319552844595 * 2 powi (- 2 - 52)"
    by (rule fl_near) (simp_all add: power_int_def field_simps)
  also have "\<dots> = 5404319552844595 / 18014398509481984" by (simp add: power_int_def field_simps)
  finally show ?thesis .
qed


lemma sc_3_id: "fl (2026619832316723 / 2251799813685248) = 2026619832316723 / 2251799813685248"
proof -
  have "fl (2026619832316723 / 2251799813685248) = of_int 8106479329266892 * 2 powi (- 1 - 52)"
    by (rule fl_near) (simp_all add: power_int_def field_simps)
  also have "\<dots> = 2026619832316723 / 2251799813685248" by (simp add: power_int_def field_simps)
  finally show ?thesis .
qed






subsection \<open>Finite doubles\<close>

lemma fl_repr:
  assumes e: "- 1022 \<le> e" and n: "0 < n" "n < 2 ^ 53" "2 ^ 52 \<le> n \<or> e = - 1022"
  shows "fl (of_int n * 2 powi (e - 52)) = of_int n * 2 powi (e - 52)"
proof (rule fl_near [OF _ e])
  let ?u = "(2::real) powi (e - 52)"
  have u: "0 < ?u" by simp
  have s1: "?u * 2 ^ 52 = 2 powi e"
  proof -
    have "(2::real) powi (e - 52) = 2 powi e / 2 powi 52" by (simp add: power_int_diff)
    moreover have "(2::real) powi 52 = 2 ^ 52" by (simp add: power_int_def)
    ultimately show ?thesis by simp
  qed
  have s2: "?u * 2 ^ 53 = 2 powi (e + 1)"
  proof -
    have "?u * 2 ^ 53 = (?u * 2 ^ 52) * 2" by simp
    also have "\<dots> = 2 powi e * 2" by (simp only: s1)
    also have "\<dots> = 2 powi (e + 1)" by (simp add: power_int_add)
    finally show ?thesis .
  qed
  from n(1) have n0: "(0::real) < of_int n" by simp
  show "0 < of_int n * ?u" using n0 u by simp
  show "2 powi e \<le> of_int n * ?u \<or> e = - 1022"
  proof (cases "e = - 1022")
    case False
    with n(3) have "2 ^ 52 \<le> n" by simp
    then have "(of_int (2 ^ 52) :: real) \<le> of_int n" by (simp only: of_int_le_iff)
    then have "(2 ^ 52 :: real) \<le> of_int n" by simp
    then have le: "2 ^ 52 * ?u \<le> of_int n * ?u" using u by (intro mult_right_mono) simp_all
    have "2 powi e = 2 ^ 52 * ?u" using s1 by (simp only: mult.commute)
    also note le
    finally show ?thesis by (rule disjI1)
  qed simp
  have "(of_int n :: real) < of_int (2 ^ 53)" using n(2) by (simp only: of_int_less_iff)
  then have "(of_int n :: real) < 2 ^ 53" by simp
  then have lt: "of_int n * ?u < 2 ^ 53 * ?u" using u by (intro mult_strict_right_mono) simp_all
  have "2 ^ 53 * ?u = 2 powi (e + 1)" using s2 by (simp only: mult.commute)
  with lt show "of_int n * ?u < 2 powi (e + 1)" by (simp only:)
  show "(of_int n - 1 / 2) * ?u < of_int n * ?u" using u by (intro mult_strict_right_mono) simp_all
  show "of_int n * ?u < (of_int n + 1 / 2) * ?u" using u by (intro mult_strict_right_mono) simp_all
qed

lemma rne_range:
  assumes "0 < x"
  shows "rne (x / ulp x) \<le> 2 ^ 53" and "- 1022 < binade x \<Longrightarrow> 2 ^ 52 \<le> rne (x / ulp x)"
proof -
  have "x < ulp x * 2 ^ 53" unfolding ulp_scale(2) by (rule binade_upper [OF assms])
  then have "x / ulp x \<le> 2 ^ 53" by (simp add: field_simps)
  from rne_mono [OF this] show "rne (x / ulp x) \<le> 2 ^ 53" by simp
  assume b: "- 1022 < binade x"
  have "ulp x * 2 ^ 52 \<le> x" unfolding ulp_scale(1) by (rule binade_lower [OF assms b])
  then have "2 ^ 52 \<le> x / ulp x" by (simp add: field_simps)
  from rne_mono [OF this] show "2 ^ 52 \<le> rne (x / ulp x)" by simp
qed

lemma fl_idem_pos:
  assumes "0 < x"
  shows "fl (fl x) = fl x"
proof -
  let ?n = "rne (x / ulp x)"
  let ?e = "binade x"
  have f: "fl x = of_int ?n * 2 powi (?e - 52)" using assms by (simp add: fl_pos ulp_def)
  have n0: "0 \<le> ?n" using assms by (intro rne_nonneg) (simp add: less_imp_le)
  consider "?n = 0" | "0 < ?n" "?n < 2 ^ 53" | "?n = 2 ^ 53"
    using n0 rne_range(1) [OF assms] by linarith
  then show ?thesis
  proof cases
    case 1
    with f show ?thesis by simp
  next
    case 2
    have "2 ^ 52 \<le> ?n \<or> ?e = - 1022"
      using rne_range(2) [OF assms] binade_ge [of x] by linarith
    from fl_repr [OF binade_ge 2 this] show ?thesis by (simp only: f)
  next
    case 3
    have "(of_int ?n :: real) * 2 powi (?e - 52) = of_int (2 ^ 52) * 2 powi ((?e + 1) - 52)"
    proof -
      have "(2::real) powi ((?e + 1) - 52) = 2 powi (?e - 52) * 2"
        using power_int_add [of "2::real" "?e - 52" 1] by (simp add: algebra_simps)
      then show ?thesis by (simp add: 3)
    qed
    moreover have "fl (of_int (2 ^ 52) * 2 powi ((?e + 1) - 52))
                 = of_int (2 ^ 52) * 2 powi ((?e + 1) - 52)"
      by (rule fl_repr) (use binade_ge [of x] in simp_all)
    ultimately show ?thesis by (simp only: f)
  qed
qed

lemma fl_idem [simp]: "fl (fl x) = fl x"
proof -
  consider "x = 0" | "0 < x" | "x < 0" by linarith
  then show ?thesis
  proof cases
    case 3
    then have "fl (fl (- x)) = fl (- x)" by (intro fl_idem_pos) simp
    then show ?thesis by (simp add: fl_minus)
  qed (simp_all add: fl_idem_pos)
qed



















lemma is_double_0 [simp]: "is_double 0"
  by (simp add: is_double_def)



















end
